theory Spec2Isabelle
  imports Complex_Main "HOL-Library.Sublist"
begin

section \<open>Numbers\<close>

text \<open>
  The TypeScript source computes with \<open>number\<close>, the binary64 floating-point numbers. On the
  geometry and writer side a finite number is the \<^typ>\<open>real\<close> it denotes, and an arithmetic
  operation of the source is the exact operation followed by \<open>rnd\<close>, the rounding to the nearest
  binary64 value: 53 significant bits, ties to the even significand, the spacing \<open>2^-1074\<close> of
  the subnormal numbers below \<open>2^-1022\<close>. \<open>expo x\<close> is the binary exponent of \<open>x\<close>, so
  that the binary64 values around \<open>x\<close> are the multiples of \<open>2^(expo x - 52)\<close>.

  The two zeros are one number here, and \<open>Infinity\<close> and \<open>NaN\<close> are not values of this side of
  the model (a result beyond the largest finite number is rounded like any other).
  \<open>calculateFlatPattern\<close>, the tray geometry and the methods \<open>addDimension\<close> and \<open>addCallout\<close>
  compute with these operations. The code that assembles a drawing from them (\<open>hole_drawing\<close>,
  \<open>panel_file\<close>, \<open>profile_file\<close>, and the remap of the hole coordinates) passes coordinates on
  without rounding.
\<close>

definition round_even :: "real \<Rightarrow> int" where
  "round_even r =
     (let f = \<lfloor>r\<rfloor>; d = r - of_int f
      in if d < 1 / 2 then f else if 1 / 2 < d then f + 1 else if even f then f else f + 1)"

definition expo :: "real \<Rightarrow> int" where
  "expo x = (if \<bar>x\<bar> < 2 powr (- 1022) then - 1022 else \<lfloor>log 2 \<bar>x\<bar>\<rfloor>)"

definition rnd :: "real \<Rightarrow> real" where
  "rnd x = (let q = 2 powr (of_int (expo x) - 52) in of_int (round_even (x / q)) * q)"

text \<open>The operators \<open>+\<close>, \<open>-\<close>, \<open>*\<close> and \<open>/\<close> of the source.\<close>

definition fadd :: "real \<Rightarrow> real \<Rightarrow> real" where
  "fadd x y = rnd (x + y)"

definition fsub :: "real \<Rightarrow> real \<Rightarrow> real" where
  "fsub x y = rnd (x - y)"

definition fmul :: "real \<Rightarrow> real \<Rightarrow> real" where
  "fmul x y = rnd (x * y)"

definition fdiv :: "real \<Rightarrow> real \<Rightarrow> real" where
  "fdiv x y = rnd (x / y)"

section \<open>Strings and the built-in conversions\<close>

text \<open>
  Strings are lists of characters. \<open>split('\n')\<close>, \<open>join('\n')\<close> and \<open>trim()\<close> follow the
  ECMAScript definitions, with the ASCII white space characters (TAB, LF, VT, FF, CR, SPACE)
  as the white space set.
\<close>

definition newline :: char where
  "newline = CHR 0x0A"

definition is_space :: "char \<Rightarrow> bool" where
  "is_space c \<longleftrightarrow> c \<in> {CHR 0x09, CHR 0x0A, CHR 0x0B, CHR 0x0C, CHR 0x0D, CHR 0x20}"

definition trim :: "string \<Rightarrow> string" where
  "trim s = rev (dropWhile is_space (rev (dropWhile is_space s)))"

fun split_lines :: "string \<Rightarrow> string list" where
  "split_lines [] = [[]]"
| "split_lines (c # cs) =
     (if c = newline then [] # split_lines cs
      else (case split_lines cs of [] \<Rightarrow> [[c]] | l # ls \<Rightarrow> (c # l) # ls))"

fun join_lines :: "string list \<Rightarrow> string" where
  "join_lines [] = []"
| "join_lines [l] = l"
| "join_lines (l # m # ls) = l @ newline # join_lines (m # ls)"

definition is_digit :: "char \<Rightarrow> bool" where
  "is_digit c \<longleftrightarrow> c \<in> set ''0123456789''"

definition digit_char :: "nat \<Rightarrow> char" where
  "digit_char d = ''0123456789'' ! d"

text \<open>The position of a character in a string of digits (the length of the string when it is not there).\<close>

definition index_of :: "char \<Rightarrow> string \<Rightarrow> nat" where
  "index_of c s = length (takeWhile (\<lambda>d. d \<noteq> c) s)"

definition digit_val :: "char \<Rightarrow> nat" where
  "digit_val c = index_of c ''0123456789''"

definition hex_val :: "char \<Rightarrow> nat option" where
  "hex_val c =
     (if index_of c ''0123456789abcdef'' < 16 then Some (index_of c ''0123456789abcdef'')
      else if index_of c ''0123456789ABCDEF'' < 16 then Some (index_of c ''0123456789ABCDEF'')
      else None)"

text \<open>Value of a run of decimal digits, most significant first.\<close>

definition digits_val :: "string \<Rightarrow> nat" where
  "digits_val ds = foldl (\<lambda>a c. 10 * a + digit_val c) 0 ds"

definition hex_digits_val :: "string \<Rightarrow> nat" where
  "hex_digits_val ds = foldl (\<lambda>a c. 16 * a + (case hex_val c of None \<Rightarrow> 0 | Some d \<Rightarrow> d)) 0 ds"

text \<open>Decimal digits of a natural number, without leading zeros (\<open>0\<close> is \<open>''0''\<close>).\<close>

fun nat_digits :: "nat \<Rightarrow> string" where
  "nat_digits n = (if n < 10 then [digit_char n] else nat_digits (n div 10) @ [digit_char (n mod 10)])"

declare nat_digits.simps [simp del]

subsection \<open>\<open>parseInt\<close>\<close>

text \<open>
  \<open>parseInt(s)\<close> without radix: leading white space is skipped, then an optional sign, then an
  optional \<open>0x\<close>/\<open>0X\<close> prefix selecting radix 16, then the longest run of digits of the radix.
  No digit gives \<open>NaN\<close>, modelled as \<open>None\<close>. The integer is kept exact.
\<close>

definition parseInt :: "string \<Rightarrow> int option" where
  "parseInt s =
     (let s1 = dropWhile is_space s;
          neg = (s1 \<noteq> [] \<and> hd s1 = CHR ''-'');
          s2 = (if s1 \<noteq> [] \<and> (hd s1 = CHR ''+'' \<or> hd s1 = CHR ''-'') then tl s1 else s1);
          hex = (take 2 s2 = ''0x'' \<or> take 2 s2 = ''0X'');
          z = (if hex then takeWhile (\<lambda>c. hex_val c \<noteq> None) (drop 2 s2) else takeWhile is_digit s2)
      in if z = [] then None
         else let m = int (if hex then hex_digits_val z else digits_val z)
              in Some (if neg then - m else m))"

subsection \<open>Numbers read by the parser\<close>

text \<open>
  Values produced by \<open>parseFloat\<close> can be \<open>NaN\<close> or infinite, and the parser starts its bounds
  at plus and minus \<open>Infinity\<close>; the parser side therefore uses \<open>number\<close>, the reals extended
  by these three values, with the IEEE rules for them.
\<close>

datatype number = Fin real | NaN | PosInf | NegInf

fun num_lt :: "number \<Rightarrow> number \<Rightarrow> bool" where
  "num_lt NaN _ = False"
| "num_lt _ NaN = False"
| "num_lt (Fin a) (Fin b) = (a < b)"
| "num_lt (Fin a) PosInf = True"
| "num_lt (Fin a) NegInf = False"
| "num_lt PosInf _ = False"
| "num_lt NegInf NegInf = False"
| "num_lt NegInf _ = True"

definition num_gt :: "number \<Rightarrow> number \<Rightarrow> bool" where
  "num_gt a b = num_lt b a"

fun num_neg :: "number \<Rightarrow> number" where
  "num_neg (Fin a) = Fin (- a)"
| "num_neg NaN = NaN"
| "num_neg PosInf = NegInf"
| "num_neg NegInf = PosInf"

fun num_add :: "number \<Rightarrow> number \<Rightarrow> number" where
  "num_add NaN _ = NaN"
| "num_add _ NaN = NaN"
| "num_add (Fin a) (Fin b) = Fin (a + b)"
| "num_add (Fin a) PosInf = PosInf"
| "num_add (Fin a) NegInf = NegInf"
| "num_add PosInf NegInf = NaN"
| "num_add PosInf _ = PosInf"
| "num_add NegInf PosInf = NaN"
| "num_add NegInf _ = NegInf"

definition num_sub :: "number \<Rightarrow> number \<Rightarrow> number" where
  "num_sub a b = num_add a (num_neg b)"

fun num_mul :: "number \<Rightarrow> number \<Rightarrow> number" where
  "num_mul NaN _ = NaN"
| "num_mul _ NaN = NaN"
| "num_mul (Fin a) (Fin b) = Fin (a * b)"
| "num_mul (Fin a) PosInf = (if a = 0 then NaN else if 0 < a then PosInf else NegInf)"
| "num_mul (Fin a) NegInf = (if a = 0 then NaN else if 0 < a then NegInf else PosInf)"
| "num_mul PosInf (Fin b) = (if b = 0 then NaN else if 0 < b then PosInf else NegInf)"
| "num_mul NegInf (Fin b) = (if b = 0 then NaN else if 0 < b then NegInf else PosInf)"
| "num_mul PosInf PosInf = PosInf"
| "num_mul PosInf NegInf = NegInf"
| "num_mul NegInf PosInf = NegInf"
| "num_mul NegInf NegInf = PosInf"

subsection \<open>\<open>parseFloat\<close>\<close>

text \<open>
  \<open>parseFloat(s)\<close>: leading white space is skipped and the longest prefix that is a decimal
  literal is read: an optional sign, then \<open>Infinity\<close>, or digits with an optional fraction
  (digits before or after the point at least), and an exponent part when it is complete.
  No such prefix gives \<open>NaN\<close>. \<open>parse_unsigned\<close> reads what follows the sign.
\<close>

definition parse_unsigned :: "string \<Rightarrow> number" where
  "parse_unsigned s2 =
     (if take 8 s2 = ''Infinity'' then PosInf
      else
        let ip = takeWhile is_digit s2;
            r1 = dropWhile is_digit s2;
            dot = (r1 \<noteq> [] \<and> hd r1 = CHR ''.'');
            fp = (if dot then takeWhile is_digit (tl r1) else []);
            r2 = (if dot then dropWhile is_digit (tl r1) else r1)
        in if ip = [] \<and> fp = [] then NaN
           else
             let mant = real (digits_val ip) + real (digits_val fp) / 10 ^ length fp;
                 ex = (r2 \<noteq> [] \<and> (hd r2 = CHR ''e'' \<or> hd r2 = CHR ''E''));
                 r3 = (if ex then tl r2 else []);
                 eneg = (r3 \<noteq> [] \<and> hd r3 = CHR ''-'');
                 r4 = (if r3 \<noteq> [] \<and> (hd r3 = CHR ''+'' \<or> hd r3 = CHR ''-'') then tl r3 else r3);
                 ed = takeWhile is_digit r4
             in Fin (if ed = [] then mant
                     else if eneg then mant / 10 ^ digits_val ed
                     else mant * 10 ^ digits_val ed))"

definition parseFloat :: "string \<Rightarrow> number" where
  "parseFloat s =
     (let s1 = dropWhile is_space s
      in if s1 \<noteq> [] \<and> hd s1 = CHR ''-'' then num_neg (parse_unsigned (tl s1))
         else if s1 \<noteq> [] \<and> hd s1 = CHR ''+'' then parse_unsigned (tl s1)
         else parse_unsigned s1)"

text \<open>The argument may be \<open>undefined\<close> (a code line with no value line after it).\<close>

definition parseInt_opt :: "string option \<Rightarrow> int option" where
  "parseInt_opt v = (case v of None \<Rightarrow> None | Some s \<Rightarrow> parseInt s)"

definition parseFloat_opt :: "string option \<Rightarrow> number" where
  "parseFloat_opt v = (case v of None \<Rightarrow> NaN | Some s \<Rightarrow> parseFloat s)"

subsection \<open>\<open>Number.prototype.toFixed\<close> and \<open>toString\<close>\<close>

text \<open>
  \<open>x.toFixed(f)\<close>: the sign, then the integer \<open>n\<close> with \<open>n / 10^f\<close> nearest to \<open>|x|\<close> (the larger
  one on a tie), written with at least \<open>f + 1\<close> digits and a point before the last \<open>f\<close>.
  (JavaScript switches to exponent notation from \<open>10^21\<close> on; positional notation is kept
  here.)
\<close>

definition toFixed :: "nat \<Rightarrow> real \<Rightarrow> string" where
  "toFixed f x =
     (let a = \<bar>x\<bar>;
          n = nat \<lfloor>a * 10 ^ f + 1 / 2\<rfloor>;
          m = nat_digits n;
          m' = replicate (Suc f - length m) (CHR ''0'') @ m;
          k = length m'
      in (if x < 0 then ''-'' else []) @
         (if f = 0 then m' else take (k - f) m' @ ''.'' @ drop (k - f) m'))"

text \<open>
  \<open>x.toString()\<close>, positional notation: the integer part, and for a value that is not an
  integer a point and the fraction digits, at most 17 of them. (JavaScript prints the
  shortest digits that identify the binary value, and uses exponent notation below \<open>10^-6\<close>
  and from \<open>10^21\<close> on.)
\<close>

fun frac_digits :: "nat \<Rightarrow> real \<Rightarrow> string" where
  "frac_digits 0 r = []"
| "frac_digits (Suc k) r =
     (if r = 0 then []
      else let d = nat \<lfloor>10 * r\<rfloor> in digit_char d # frac_digits k (10 * r - real d))"

definition num_toString :: "real \<Rightarrow> string" where
  "num_toString x =
     (let a = \<bar>x\<bar>;
          ip = nat \<lfloor>a\<rfloor>;
          fr = a - real ip
      in (if x < 0 then ''-'' else []) @ nat_digits ip @
         (if fr = 0 then [] else ''.'' @ frac_digits 17 fr))"

subsection \<open>The functions of \<open>Math\<close>\<close>

text \<open>
  \<open>Math.PI\<close> is the binary64 value nearest to \<open>\<pi>\<close>. \<open>Math.sqrt\<close> is correctly rounded.
  \<open>Math.pow\<close>, \<open>Math.cos\<close>, \<open>Math.sin\<close> and \<open>Math.atan2\<close> are approximations that the language
  standard leaves to the implementation; they are taken as correctly rounded too (for the
  exponent \<open>2\<close>, \<open>Math.pow\<close> is the rounded product). \<open>Math.atan2\<close> returns \<open>Math.PI\<close>, its half
  and zero on the axes, as the standard says, and elsewhere the rounded angle of the point
  \<open>(x, y)\<close> in \<open>(-\<pi>, \<pi>]\<close>. \<open>Math.sign\<close> is \<^const>\<open>sgn\<close> and \<open>Math.floor\<close> is the floor.
\<close>

definition Math_PI :: real where
  "Math_PI = 884279719003555 / 281474976710656"

definition Math_sqrt :: "real \<Rightarrow> real" where
  "Math_sqrt x = rnd (sqrt x)"

definition Math_pow :: "real \<Rightarrow> nat \<Rightarrow> real" where
  "Math_pow x n = rnd (x ^ n)"

definition Math_cos :: "real \<Rightarrow> real" where
  "Math_cos x = rnd (cos x)"

definition Math_sin :: "real \<Rightarrow> real" where
  "Math_sin x = rnd (sin x)"

definition atan2 :: "real \<Rightarrow> real \<Rightarrow> real" where
  "atan2 y x =
     (if x = 0 then (if 0 < y then Math_PI / 2 else if y < 0 then - Math_PI / 2 else 0)
      else if y = 0 then (if x < 0 then Math_PI else 0)
      else rnd (if 0 < x then arctan (y / x)
                else if 0 < y then arctan (y / x) + pi
                else arctan (y / x) - pi))"

section \<open>The DXF writer: class \<open>SimpleDxfWriter\<close>\<close>

text \<open>
  The writer object has one field, the array \<open>content\<close> of output lines. Every method takes
  the writer and returns the updated one. Optional parameters are passed explicitly (the
  defaults of the source are \<open>layer = '0'\<close>, \<open>color = 7\<close>, \<open>closed = true\<close>, for \<open>addText\<close>
  \<open>layer = 'TEXT'\<close> and \<open>rotation = 0\<close>, for \<open>addDimension\<close> \<open>offset = 20\<close> and for
  \<open>addCallout\<close> \<open>angleDeg = 45\<close>, \<open>length = 20\<close>).
\<close>

record SimpleDxfWriter =
  content :: "string list"

definition header_lines :: "string list" where
  "header_lines =
     [''0'', ''SECTION'', ''2'', ''HEADER'', ''9'', ''$ACADVER'', ''1'', ''AC1009'', ''0'', ''ENDSEC'',
      ''0'', ''SECTION'', ''2'', ''TABLES'',
      ''0'', ''TABLE'', ''2'', ''LAYER'', ''70'', ''6'',
      ''0'', ''LAYER'', ''2'', ''0'', ''70'', ''0'', ''62'', ''7'', ''6'', ''CONTINUOUS'',
      ''0'', ''LAYER'', ''2'', ''CUT_OUTER'', ''70'', ''0'', ''62'', ''7'', ''6'', ''CONTINUOUS'',
      ''0'', ''LAYER'', ''2'', ''CUT_INNER'', ''70'', ''0'', ''62'', ''1'', ''6'', ''CONTINUOUS'',
      ''0'', ''LAYER'', ''2'', ''BEND'', ''70'', ''0'', ''62'', ''2'', ''6'', ''DASHED'',
      ''0'', ''LAYER'', ''2'', ''DIMENSIONS'', ''70'', ''0'', ''62'', ''3'', ''6'', ''CONTINUOUS'',
      ''0'', ''LAYER'', ''2'', ''TEXT'', ''70'', ''0'', ''62'', ''4'', ''6'', ''CONTINUOUS'',
      ''0'', ''ENDTAB'',
      ''0'', ''ENDSEC'',
      ''0'', ''SECTION'', ''2'', ''ENTITIES'']"

definition header :: "SimpleDxfWriter \<Rightarrow> SimpleDxfWriter" where
  "header w = w\<lparr>content := content w @ header_lines\<rparr>"

text \<open>The constructor: an empty \<open>content\<close>, then \<open>this.header()\<close>.\<close>

definition new_writer :: SimpleDxfWriter where
  "new_writer = header \<lparr>content = []\<rparr>"

definition addLine ::
  "SimpleDxfWriter \<Rightarrow> real \<Rightarrow> real \<Rightarrow> real \<Rightarrow> real \<Rightarrow> string \<Rightarrow> real \<Rightarrow> SimpleDxfWriter" where
  "addLine w x1 y1 x2 y2 layer color =
     w\<lparr>content := content w @
       [''0'', ''LINE'',
        ''8'', layer,
        ''62'', num_toString color,
        ''10'', toFixed 3 x1, ''20'', toFixed 3 y1, ''30'', ''0.0'',
        ''11'', toFixed 3 x2, ''21'', toFixed 3 y2, ''31'', ''0.0'']\<rparr>"

definition vertex_lines :: "string \<Rightarrow> real \<times> real \<Rightarrow> string list" where
  "vertex_lines layer p =
     [''0'', ''VERTEX'', ''8'', layer, ''10'', toFixed 3 (fst p), ''20'', toFixed 3 (snd p),
      ''30'', ''0.0'']"

definition addPolyline ::
  "SimpleDxfWriter \<Rightarrow> (real \<times> real) list \<Rightarrow> string \<Rightarrow> real \<Rightarrow> bool \<Rightarrow> SimpleDxfWriter" where
  "addPolyline w points layer color isClosed =
     w\<lparr>content := content w @
       [''0'', ''POLYLINE'', ''8'', layer, ''62'', num_toString color, ''66'', ''1'',
        ''10'', ''0.0'', ''20'', ''0.0'', ''30'', ''0.0'', ''70'', (if isClosed then ''1'' else ''0'')] @
       concat (map (vertex_lines layer) points) @
       [''0'', ''SEQEND'']\<rparr>"

definition addCircle ::
  "SimpleDxfWriter \<Rightarrow> real \<Rightarrow> real \<Rightarrow> real \<Rightarrow> string \<Rightarrow> real \<Rightarrow> SimpleDxfWriter" where
  "addCircle w cx cy radius layer color =
     w\<lparr>content := content w @
       [''0'', ''CIRCLE'',
        ''8'', layer,
        ''62'', num_toString color,
        ''10'', toFixed 3 cx, ''20'', toFixed 3 cy, ''30'', ''0.0'',
        ''40'', toFixed 3 radius]\<rparr>"

definition addText ::
  "SimpleDxfWriter \<Rightarrow> string \<Rightarrow> real \<Rightarrow> real \<Rightarrow> real \<Rightarrow> string \<Rightarrow> real \<Rightarrow> SimpleDxfWriter" where
  "addText w text x y height layer rotation =
     w\<lparr>content := content w @
       [''0'', ''TEXT'',
        ''8'', layer,
        ''10'', toFixed 3 x, ''20'', toFixed 3 y, ''30'', ''0.0'',
        ''40'', num_toString height,
        ''50'', num_toString rotation,
        ''1'', text]\<rparr>"

text \<open>
  \<open>addDimension\<close>. \<open>dimension_dist\<close> is the local \<open>dist\<close>, \<open>dimension_textRot\<close> the final value of
  the local \<open>textRot\<close>; \<open>value\<close> is optional. The literals \<open>0.1\<close> and \<open>0.6\<close> are the binary64
  values nearest to them.
\<close>

definition dimension_dist :: "real \<Rightarrow> real \<Rightarrow> real \<Rightarrow> real \<Rightarrow> real" where
  "dimension_dist x1 y1 x2 y2 =
     Math_sqrt (fadd (Math_pow (fsub x2 x1) 2) (Math_pow (fsub y2 y1) 2))"

definition dimension_textRot :: "real \<Rightarrow> real \<Rightarrow> real \<Rightarrow> real \<Rightarrow> real" where
  "dimension_textRot x1 y1 x2 y2 =
     (let angle = atan2 (fsub y2 y1) (fsub x2 x1);
          textRot = fdiv (fmul angle 180) Math_PI
      in if textRot > 90 \<or> textRot < - 90 then fadd textRot 180 else textRot)"

definition addDimension ::
  "SimpleDxfWriter \<Rightarrow> real \<Rightarrow> real \<Rightarrow> real \<Rightarrow> real \<Rightarrow> real option \<Rightarrow> real \<Rightarrow> SimpleDxfWriter" where
  "addDimension w x1 y1 x2 y2 val offset =
     (let dist = dimension_dist x1 y1 x2 y2
      in if dist < rnd 0.1 then w
         else
           let val = (case val of Some v \<Rightarrow> v | None \<Rightarrow> dist);
               angle = atan2 (fsub y2 y1) (fsub x2 x1);
               perpAngle = fadd angle (fdiv Math_PI 2);
               gap = 2.0;
               overshoot = 2.0;
               extStartX1 = fadd x1 (fmul (Math_cos perpAngle) (fmul (sgn offset) gap));
               extStartY1 = fadd y1 (fmul (Math_sin perpAngle) (fmul (sgn offset) gap));
               extStartX2 = fadd x2 (fmul (Math_cos perpAngle) (fmul (sgn offset) gap));
               extStartY2 = fadd y2 (fmul (Math_sin perpAngle) (fmul (sgn offset) gap));
               offX = fmul (Math_cos perpAngle) offset;
               offY = fmul (Math_sin perpAngle) offset;
               dimX1 = fadd x1 offX;
               dimY1 = fadd y1 offY;
               dimX2 = fadd x2 offX;
               dimY2 = fadd y2 offY;
               extEndX1 = fadd dimX1 (fmul (Math_cos perpAngle) (fmul (sgn offset) overshoot));
               extEndY1 = fadd dimY1 (fmul (Math_sin perpAngle) (fmul (sgn offset) overshoot));
               extEndX2 = fadd dimX2 (fmul (Math_cos perpAngle) (fmul (sgn offset) overshoot));
               extEndY2 = fadd dimY2 (fmul (Math_sin perpAngle) (fmul (sgn offset) overshoot));
               w = addLine w extStartX1 extStartY1 extEndX1 extEndY1 ''DIMENSIONS'' 3;
               w = addLine w extStartX2 extStartY2 extEndX2 extEndY2 ''DIMENSIONS'' 3;
               w = addLine w dimX1 dimY1 dimX2 dimY2 ''DIMENSIONS'' 3;
               tickSize = 2.0;
               tickAngle = fadd angle (fdiv Math_PI 4);
               tick1X = fmul (Math_cos tickAngle) tickSize;
               tick1Y = fmul (Math_sin tickAngle) tickSize;
               w = addLine w (fsub dimX1 tick1X) (fsub dimY1 tick1Y) (fadd dimX1 tick1X) (fadd dimY1 tick1Y)
                     ''DIMENSIONS'' 3;
               w = addLine w (fsub dimX2 tick1X) (fsub dimY2 tick1Y) (fadd dimX2 tick1X) (fadd dimY2 tick1Y)
                     ''DIMENSIONS'' 3;
               midX = fdiv (fadd dimX1 dimX2) 2;
               midY = fdiv (fadd dimY1 dimY2) 2;
               textGap = 2;
               textX = fadd midX (fmul (Math_cos perpAngle) textGap);
               textY = fadd midY (fmul (Math_sin perpAngle) textGap);
               textStr = toFixed 1 val;
               textHeight = 3.5;
               textWidthEstimate = fmul (real (length textStr)) (fmul textHeight (rnd 0.6));
               textRot = dimension_textRot x1 y1 x2 y2
           in addText w textStr (fsub textX (fdiv textWidthEstimate 2)) (fsub textY (fdiv textHeight 2))
                textHeight ''TEXT'' textRot)"


text \<open>
  \<open>toString()\<close> pushes the four closing lines onto \<open>content\<close> and returns the joined text;
  the model returns the text together with the writer after the push.
\<close>

definition toString :: "SimpleDxfWriter \<Rightarrow> string \<times> SimpleDxfWriter" where
  "toString w =
     (let w' = w\<lparr>content := content w @ [''0'', ''ENDSEC'', ''0'', ''EOF'']\<rparr>
      in (join_lines (content w'), w'))"

section \<open>The DXF parser: \<open>parseDxf\<close>\<close>

text \<open>
  \<open>DxfEntity\<close> is a union tagged by \<open>type\<close>; each variant carries the fields its object literal
  in \<open>parseDxf\<close> sets. \<open>layer\<close> and \<open>text\<close> hold a line of the input or \<open>undefined\<close> (\<open>None\<close>: the
  value of a pair whose code is the last line of the input); \<open>color\<close> holds the result of
  \<open>parseInt\<close> (\<open>None\<close> is \<open>NaN\<close>). A \<open>LINE\<close> has exactly the two points \<open>points[0]\<close>, \<open>points[1]\<close>.
\<close>

datatype DxfEntity =
    LINE (layer: "string option") (color: "int option")
         (p0: "number \<times> number") (p1: "number \<times> number")
  | CIRCLE (layer: "string option") (color: "int option")
         (center: "number \<times> number") (radius: number)
  | TEXT (layer: "string option") (color: "int option")
         (tx: number) (ty: number) (height: number) (etext: "string option")
  | POLYLINE (layer: "string option") (color: "int option")
         (points: "(number \<times> number) list") (isClosed: bool)

record DxfBounds =
  minX :: number
  minY :: number
  maxX :: number
  maxY :: number

datatype error = TypeError

text \<open>
  The variables of \<open>parseDxf\<close> that its loops change: the entity list, the four bounds and
  \<open>inEntities\<close>. The index \<open>i\<close> into \<open>lines\<close> is represented by the lines from \<open>i\<close> on
  (\<open>drop i lines\<close>), passed along separately.
\<close>

record pstate =
  entities :: "DxfEntity list"
  bounds :: DxfBounds
  inEntities :: bool

definition updateBounds :: "DxfBounds \<Rightarrow> number \<Rightarrow> number \<Rightarrow> DxfBounds" where
  "updateBounds b x y =
     (let b = (if num_lt x (minX b) then b\<lparr>minX := x\<rparr> else b);
          b = (if num_gt x (maxX b) then b\<lparr>maxX := x\<rparr> else b);
          b = (if num_lt y (minY b) then b\<lparr>minY := y\<rparr> else b);
          b = (if num_gt y (maxY b) then b\<lparr>maxY := y\<rparr> else b)
      in b)"

text \<open>
  \<open>next()\<close> and \<open>peek()\<close> on the remaining lines: \<open>null\<close> at the end, otherwise the pair of
  \<open>parseInt\<close> of the first line and the second line, which is \<open>undefined\<close> when there is none.
  \<open>next()\<close> also moves two lines on.
\<close>

fun peek :: "string list \<Rightarrow> (int option \<times> string option) option" where
  "peek [] = None"
| "peek [c] = Some (parseInt c, None)"
| "peek (c # v # rest) = Some (parseInt c, Some v)"

definition next_pair :: "string list \<Rightarrow> ((int option \<times> string option) \<times> string list) option" where
  "next_pair ls = (case peek ls of None \<Rightarrow> None | Some p \<Rightarrow> Some (p, drop 2 ls))"

text \<open>
  The field loop shared by the four entity kinds and by the vertices,
  \<open>let p = peek(); while (p && p.code !== 0) { next(); ...; p = peek(); }\<close>,
  with the body's assignments as the parameter \<open>upd\<close>. It returns the lines left.
\<close>

fun read_fields ::
  "('e \<Rightarrow> int option \<Rightarrow> string option \<Rightarrow> 'e) \<Rightarrow> string list \<Rightarrow> 'e \<Rightarrow> 'e \<times> string list" where
  "read_fields upd [] e = (e, [])"
| "read_fields upd [c] e =
     (if parseInt c = Some 0 then (e, [c]) else (upd e (parseInt c) None, []))"
| "read_fields upd (c # v # rest) e =
     (if parseInt c = Some 0 then (e, c # v # rest)
      else read_fields upd rest (upd e (parseInt c) (Some v)))"

text \<open>The loop bodies.\<close>

fun line_field :: "DxfEntity \<Rightarrow> int option \<Rightarrow> string option \<Rightarrow> DxfEntity" where
  "line_field (LINE l c (ax, ay) (bx, by)) code v =
     LINE (if code = Some 8 then v else l)
          (if code = Some 62 then parseInt_opt v else c)
          (if code = Some 10 then parseFloat_opt v else ax,
           if code = Some 20 then parseFloat_opt v else ay)
          (if code = Some 11 then parseFloat_opt v else bx,
           if code = Some 21 then parseFloat_opt v else by)"
| "line_field e code v = e"

fun circle_field :: "DxfEntity \<Rightarrow> int option \<Rightarrow> string option \<Rightarrow> DxfEntity" where
  "circle_field (CIRCLE l c (cx, cy) r) code v =
     CIRCLE (if code = Some 8 then v else l)
            (if code = Some 62 then parseInt_opt v else c)
            (if code = Some 10 then parseFloat_opt v else cx,
             if code = Some 20 then parseFloat_opt v else cy)
            (if code = Some 40 then parseFloat_opt v else r)"
| "circle_field e code v = e"

fun text_field :: "DxfEntity \<Rightarrow> int option \<Rightarrow> string option \<Rightarrow> DxfEntity" where
  "text_field (TEXT l c x y h t) code v =
     TEXT (if code = Some 8 then v else l)
          (if code = Some 62 then parseInt_opt v else c)
          (if code = Some 10 then parseFloat_opt v else x)
          (if code = Some 20 then parseFloat_opt v else y)
          (if code = Some 40 then parseFloat_opt v else h)
          (if code = Some 1 then v else t)"
| "text_field e code v = e"

text \<open>\<open>parseInt(p.value) & 1\<close> is the lowest bit of the integer, and \<open>0\<close> for \<open>NaN\<close>.\<close>

fun poly_field :: "DxfEntity \<Rightarrow> int option \<Rightarrow> string option \<Rightarrow> DxfEntity" where
  "poly_field (POLYLINE l c pts cl) code v =
     POLYLINE (if code = Some 8 then v else l)
              (if code = Some 62 then parseInt_opt v else c)
              pts
              (if code = Some 70 \<and> (case parseInt_opt v of None \<Rightarrow> False | Some n \<Rightarrow> odd n)
               then True else cl)"
| "poly_field e code v = e"

definition vertex_field :: "number \<times> number \<Rightarrow> int option \<Rightarrow> string option \<Rightarrow> number \<times> number" where
  "vertex_field p code v =
     (if code = Some 10 then parseFloat_opt v else fst p,
      if code = Some 20 then parseFloat_opt v else snd p)"

lemma read_fields_length: "length (snd (read_fields upd ls e)) \<le> length ls"
  by (induction upd ls e rule: read_fields.induct) auto

text \<open>
  The vertex loop of a \<open>POLYLINE\<close>: \<open>while (true) { vHeader = next(); ... }\<close>. Only the value of
  \<open>vHeader\<close> is looked at. It returns the points, the bounds and the lines left.
\<close>

function read_vertices ::
  "string list \<Rightarrow> (number \<times> number) list \<Rightarrow> DxfBounds
     \<Rightarrow> (number \<times> number) list \<times> DxfBounds \<times> string list" where
  "read_vertices [] pts b = (pts, b, [])"
| "read_vertices [c] pts b = (pts, b, [])"
| "read_vertices (c # v # rest) pts b =
     (if v = ''SEQEND'' then (pts, b, rest)
      else if v = ''VERTEX'' then
        (case read_fields vertex_field rest (Fin 0, Fin 0) of
           ((vx, vy), rest') \<Rightarrow> read_vertices rest' (pts @ [(vx, vy)]) (updateBounds b vx vy))
      else read_vertices rest pts b)"
  by pat_completeness auto
termination
proof (relation "measure (\<lambda>(ls, pts, b). length ls)", goal_cases)
  case 1
  show ?case by simp
next
  case (2 c v rest pts b x1 rest' vx vy)
  have "length (snd (read_fields vertex_field rest (Fin 0, Fin 0))) \<le> length rest"
    by (rule read_fields_length)
  moreover from 2 have "snd (read_fields vertex_field rest (Fin 0, Fin 0)) = rest'"
    by (metis snd_conv)
  ultimately show ?case by simp
next
  case 3
  then show ?case by simp
qed

text \<open>
  The body of \<open>if (inEntities && pair.code === 0)\<close>: dispatch on the type. Reading
  \<open>text.text!.length\<close> when \<open>text.text\<close> is \<open>undefined\<close> throws a \<open>TypeError\<close>. A type
  that is none of the four changes nothing.
\<close>

definition parse_entity ::
  "string \<Rightarrow> string list \<Rightarrow> pstate \<Rightarrow> error + (pstate \<times> string list)" where
  "parse_entity type ls st =
     (if type = ''LINE'' then
        (case read_fields line_field ls (LINE (Some ''0'') (Some 7) (Fin 0, Fin 0) (Fin 0, Fin 0)) of
           (line, ls') \<Rightarrow>
             let b = updateBounds (bounds st) (fst (p0 line)) (snd (p0 line));
                 b = updateBounds b (fst (p1 line)) (snd (p1 line))
             in Inr (st\<lparr>entities := entities st @ [line], bounds := b\<rparr>, ls'))
      else if type = ''CIRCLE'' then
        (case read_fields circle_field ls (CIRCLE (Some ''0'') (Some 7) (Fin 0, Fin 0) (Fin 0)) of
           (circle, ls') \<Rightarrow>
             let b = updateBounds (bounds st)
                       (num_sub (fst (center circle)) (radius circle))
                       (num_sub (snd (center circle)) (radius circle));
                 b = updateBounds b
                       (num_add (fst (center circle)) (radius circle))
                       (num_add (snd (center circle)) (radius circle))
             in Inr (st\<lparr>entities := entities st @ [circle], bounds := b\<rparr>, ls'))
      else if type = ''TEXT'' then
        (case read_fields text_field ls (TEXT (Some ''0'') (Some 7) (Fin 0) (Fin 0) (Fin 10) (Some '''')) of
           (text, ls') \<Rightarrow>
             let b = updateBounds (bounds st) (tx text) (ty text)
             in (case etext text of
                   None \<Rightarrow> Inl TypeError
                 | Some t \<Rightarrow>
                     let b = updateBounds b
                               (num_add (tx text)
                                  (num_mul (num_mul (Fin (real (length t))) (height text)) (Fin 0.6)))
                               (num_add (ty text) (height text))
                     in Inr (st\<lparr>entities := entities st @ [text], bounds := b\<rparr>, ls')))
      else if type = ''POLYLINE'' then
        (case read_fields poly_field ls (POLYLINE (Some ''0'') (Some 7) [] False) of
           (poly, ls') \<Rightarrow>
             (case read_vertices ls' (points poly) (bounds st) of
                (pts, b, ls'') \<Rightarrow>
                  Inr (st\<lparr>entities := entities st @ [POLYLINE (layer poly) (color poly) pts (isClosed poly)],
                          bounds := b\<rparr>, ls'')))
      else Inr (st, ls))"

lemma read_vertices_length: "length (snd (snd (read_vertices ls pts b))) \<le> length ls"
proof (induction ls pts b rule: read_vertices.induct)
  case (3 c v rest pts b)
  show ?case
  proof (cases "v = ''SEQEND''")
    case True
    then show ?thesis by simp
  next
    case notend: False
    show ?thesis
    proof (cases "v = ''VERTEX''")
      case True
      obtain vx vy rest' where rf: "read_fields vertex_field rest (Fin 0, Fin 0) = ((vx, vy), rest')"
        by (metis surj_pair)
      have "length rest' \<le> length rest"
        using read_fields_length [of vertex_field rest "(Fin 0, Fin 0)"] rf by simp
      moreover have "length (snd (snd (read_vertices rest' (pts @ [(vx, vy)]) (updateBounds b vx vy))))
          \<le> length rest'"
        using "3.IH"(1) [OF notend True rf [symmetric] refl] .
      ultimately show ?thesis using notend True rf by simp
    next
      case False
      with notend "3.IH"(2) show ?thesis by simp
    qed
  qed
qed simp_all

lemma read_fields_length': "read_fields upd ls e = (e', ls') \<Longrightarrow> length ls' \<le> length ls"
  using read_fields_length [of upd ls e] by simp

lemma read_vertices_length': "read_vertices ls pts b = (pts', b', ls') \<Longrightarrow> length ls' \<le> length ls"
  using read_vertices_length [of ls pts b] by simp

lemma parse_entity_length:
  assumes "parse_entity type ls st = Inr (st', ls')"
  shows "length ls' \<le> length ls"
  using assms unfolding parse_entity_def
  by (auto simp: Let_def split: if_splits prod.splits option.splits
      dest!: read_fields_length' read_vertices_length')

text \<open>
  The main loop, \<open>while (i < lines.length) { const pair = next(); ... }\<close>. After a
  \<open>0/SECTION\<close> pair the next pair is consumed as \<open>p2\<close>; \<open>2/ENTITIES\<close> opens the entities
  section (\<open>continue\<close>), and anything else falls through to the two tests below, which a
  \<open>SECTION\<close> pair does not pass.
\<close>

function parse_loop :: "string list \<Rightarrow> pstate \<Rightarrow> error + pstate" where
  "parse_loop [] st = Inr st"
| "parse_loop [c] st = Inr st"
| "parse_loop (c # v # rest) st =
     (if parseInt c = Some 0 \<and> v = ''SECTION'' then
        (if peek rest = Some (Some 2, Some ''ENTITIES'')
         then parse_loop (drop 2 rest) (st\<lparr>inEntities := True\<rparr>)
         else parse_loop (drop 2 rest) st)
      else
        let st1 = (if parseInt c = Some 0 \<and> v = ''ENDSEC'' then st\<lparr>inEntities := False\<rparr> else st)
        in if inEntities st1 \<and> parseInt c = Some 0 then
             (case parse_entity v rest st1 of
                Inl err \<Rightarrow> Inl err
              | Inr (st', rest') \<Rightarrow> parse_loop rest' st')
           else parse_loop rest st1)"
  by pat_completeness auto
termination
proof (relation "measure (\<lambda>(ls, st). length ls)", goal_cases)
  case (4 c v rest st st1 x2 st' rest')
  then have "parse_entity v rest st1 = Inr (st', rest')" by simp
  then have "length rest' \<le> length rest" by (rule parse_entity_length)
  then show ?case by simp
qed simp_all

definition init_state :: pstate where
  "init_state =
     \<lparr>entities = [],
      bounds = \<lparr>minX = PosInf, minY = PosInf, maxX = NegInf, maxY = NegInf\<rparr>,
      inEntities = False\<rparr>"

text \<open>
  \<open>parseDxf\<close>: the lines are the pieces between line feeds, trimmed. The result is the entity
  list with the bounds, the bounds replaced by \<open>(0, 0, 100, 100)\<close> when \<open>minX\<close> is still
  \<open>Infinity\<close>; or the error thrown.
\<close>

definition parseDxf :: "string \<Rightarrow> error + (DxfEntity list \<times> DxfBounds)" where
  "parseDxf contentText =
     (let lines = map trim (split_lines contentText)
      in case parse_loop lines init_state of
           Inl err \<Rightarrow> Inl err
         | Inr st \<Rightarrow>
             Inr (entities st,
                  if minX (bounds st) = PosInf
                  then \<lparr>minX = Fin 0, minY = Fin 0, maxX = Fin 100, maxY = Fin 100\<rparr>
                  else bounds st))"

section \<open>The input data\<close>

datatype Shape = Circle | Rect

record Hole =
  Shape :: Shape
  X :: real
  Y :: real
  W_or_Dia :: real
  H :: "real option"

datatype PartType = Panel | Profile

record PartGeometry =
  Part_Name :: string
  Type :: PartType
  Material :: string
  Qty :: real
  Width_mm :: real
  Height_mm :: real
  Notes :: "string option"
  Holes :: "Hole list option"

record Dims3 =
  dim_L :: real
  dim_W :: real
  dim_H :: real

record DimsWH =
  cut_W :: real
  cut_H :: real

record MaterialSpecs =
  Outer_Material :: string
  Inner_Material :: string

record CutsSpec =
  Fresh_Air :: DimsWH
  Supply_Air :: DimsWH

record ExtractedData =
  Project_ID :: string
  Unit_Ref :: string
  Global_Dims :: Dims3
  Base_Height :: real
  Material_Specs :: MaterialSpecs
  Insulation :: real
  Cuts :: CutsSpec
  Parts_List :: "PartGeometry list"



section \<open>\<open>parseProfileDims\<close>\<close>






section \<open>Flat-pattern geometry: \<open>calculateFlatPattern\<close>\<close>

record FlatPattern =
  flatLength :: real
  bendPositions :: "real list"

text \<open>\<open>let cumOuter = 0; for (k = 0; k <= i; k++) cumOuter += segments[k]\<close>\<close>

definition cumOuter :: "real list \<Rightarrow> nat \<Rightarrow> real" where
  "cumOuter segments i = foldl (\<lambda>c k. fadd c (segments ! k)) 0 [0 ..< Suc i]"

definition calculateFlatPattern :: "real list \<Rightarrow> real \<Rightarrow> FlatPattern" where
  "calculateFlatPattern segments thickness =
     (let BEND_DEDUCTION = fmul 2.0 thickness;
          totalOuter = foldl fadd 0 segments;
          totalDeductions = fmul (real (length segments) - 1) BEND_DEDUCTION;
          finalFlatLength = fsub totalOuter totalDeductions
      in \<lparr> flatLength = finalFlatLength,
           bendPositions =
             map (\<lambda>i. fsub (cumOuter segments i)
                          (fadd (fmul (real i) BEND_DEDUCTION) (fdiv BEND_DEDUCTION 2)))
                 [0 ..< length segments - 1] \<rparr>)"

section \<open>\<open>generateFabricationFiles\<close>\<close>

subsection \<open>Tray geometry\<close>


definition BEND_DEDUCTION :: real where
  "BEND_DEDUCTION = 1.5"














subsection \<open>Panels\<close>







subsection \<open>Profiles\<close>



subsection \<open>The whole function\<close>





subsection \<open>The bounding box of an outline\<close>

text \<open>Width and height of the smallest axis-aligned box around a non-empty list of points.\<close>

definition bounding_width :: "(real \<times> real) list \<Rightarrow> real" where
  "bounding_width pts = Max (set (map fst pts)) - Min (set (map fst pts))"

definition bounding_height :: "(real \<times> real) list \<Rightarrow> real" where
  "bounding_height pts = Max (set (map snd pts)) - Min (set (map snd pts))"

text \<open>Two tray panels (no \<open>Notes\<close>): a strip one millimetre wide and high, and a tray of 300 by 200.\<close>

definition small_tray :: PartGeometry where
  "small_tray = \<lparr>Part_Name = ''Strip'', Type = Panel, Material = ''GI'', Qty = 1, Width_mm = 1,
     Height_mm = 1, Notes = None, Holes = None\<rparr>"

definition base_tray :: PartGeometry where
  "base_tray = \<lparr>Part_Name = ''Base_Tray'', Type = Panel, Material = ''GI'', Qty = 1, Width_mm = 300,
     Height_mm = 200, Notes = None, Holes = Some []\<rparr>"

subsection \<open>Entities without coordinates\<close>

text \<open>
  \<open>updateBounds\<close> is called for every \<open>LINE\<close>, \<open>CIRCLE\<close> and \<open>TEXT\<close> and for every vertex of a
  \<open>POLYLINE\<close>: the entities that contribute no coordinate are the polylines without a
  vertex. \<open>untouched\<close> says of a parser state that its bounds are the initial ones if all its
  entities are of that kind.
\<close>

fun no_coordinate :: "DxfEntity \<Rightarrow> bool" where
  "no_coordinate (POLYLINE l c pts cl) = (pts = [])"
| "no_coordinate e = False"

definition untouched :: "pstate \<Rightarrow> bool" where
  "untouched st \<longleftrightarrow>
     ((\<forall>e \<in> set (entities st). no_coordinate e) \<longrightarrow> bounds st = bounds init_state)"

subsection \<open>Rounding to thousandths\<close>

text \<open>The value that \<open>toFixed 3\<close> prints: \<open>x\<close> rounded to thousandths, ties away from zero.\<close>

definition round3 :: "real \<Rightarrow> real" where
  "round3 x = (if x < 0 then - 1 else 1) * real (nat \<lfloor>\<bar>x\<bar> * 1000 + 1 / 2\<rfloor>) / 1000"

section \<open>Sequences of writer calls\<close>

text \<open>
  A call of one of the four entity methods with its arguments, a sequence of such calls
  applied to a new writer, and the text rendered at the end.
\<close>

datatype WriterCall =
    AddLine real real real real string real
  | AddPolyline "(real \<times> real) list" string real bool
  | AddCircle real real real string real
  | AddText string real real real string real

fun apply_call :: "SimpleDxfWriter \<Rightarrow> WriterCall \<Rightarrow> SimpleDxfWriter" where
  "apply_call w (AddLine x1 y1 x2 y2 lay col) = addLine w x1 y1 x2 y2 lay col"
| "apply_call w (AddPolyline pts lay col cl) = addPolyline w pts lay col cl"
| "apply_call w (AddCircle cx cy r lay col) = addCircle w cx cy r lay col"
| "apply_call w (AddText t x y h lay rotation) = addText w t x y h lay rotation"

definition render_calls :: "WriterCall list \<Rightarrow> string" where
  "render_calls cs = fst (toString (foldl apply_call new_writer cs))"

text \<open>The strings a call passes (layer names and texts).\<close>

fun call_strings :: "WriterCall \<Rightarrow> string list" where
  "call_strings (AddLine x1 y1 x2 y2 lay col) = [lay]"
| "call_strings (AddPolyline pts lay col cl) = [lay]"
| "call_strings (AddCircle cx cy r lay col) = [lay]"
| "call_strings (AddText t x y h lay rotation) = [t, lay]"

text \<open>
  A parsed entity matches a call when it has the call's type and each coordinate parsed is
  a finite number within \<open>0.001\<close> of the coordinate written (for a polyline: vertex by
  vertex, the same number of them).
\<close>

fun close_to :: "real \<Rightarrow> number \<Rightarrow> bool" where
  "close_to x (Fin a) = (\<bar>a - x\<bar> \<le> 0.001)"
| "close_to x n = False"

fun matches :: "WriterCall \<Rightarrow> DxfEntity \<Rightarrow> bool" where
  "matches (AddLine x1 y1 x2 y2 lay col) (LINE l c p q) =
     (close_to x1 (fst p) \<and> close_to y1 (snd p) \<and> close_to x2 (fst q) \<and> close_to y2 (snd q))"
| "matches (AddPolyline pts lay col cl) (POLYLINE l c ps cl') =
     list_all2 (\<lambda>p q. close_to (fst p) (fst q) \<and> close_to (snd p) (snd q)) pts ps"
| "matches (AddCircle cx cy r lay col) (CIRCLE l c ctr r') =
     (close_to cx (fst ctr) \<and> close_to cy (snd ctr) \<and> close_to r r')"
| "matches (AddText t x y h lay rotation) (TEXT l c x' y' h' t') =
     (close_to x x' \<and> close_to y y')"
| "matches call e = False"

text \<open>The lines one call pushes.\<close>

definition call_lines :: "WriterCall \<Rightarrow> string list" where
  "call_lines c = content (apply_call \<lparr>content = []\<rparr> c)"

text \<open>The lines of a vertex as the parser sees them: trimmed.\<close>

definition trimmed_vertex :: "string \<Rightarrow> real \<times> real \<Rightarrow> string list" where
  "trimmed_vertex l p =
     [''0'', ''VERTEX'', ''8'', l, ''10'', toFixed 3 (fst p), ''20'', toFixed 3 (snd p), ''30'', ''0.0'']"

subsection \<open>Inputs for which \<open>calculateFlatPattern\<close> computes without rounding\<close>

text \<open>
  \<open>on_grid g x\<close>: the number \<open>x\<close> is a multiple of \<open>2^-g\<close> (a whole number for \<open>g = 0\<close>).
  \<open>exact_input g segments t\<close>: the segment lengths and the thickness are such multiples, and
  the sum of the lengths with the deductions stays below \<open>2^(53-g)\<close>, so that every
  number \<open>calculateFlatPattern\<close> computes on the way has at most 53 significant bits.
\<close>

definition on_grid :: "nat \<Rightarrow> real \<Rightarrow> bool" where
  "on_grid g x \<longleftrightarrow> x * 2 ^ g \<in> \<int>"

definition exact_input :: "nat \<Rightarrow> real list \<Rightarrow> real \<Rightarrow> bool" where
  "exact_input g segments t \<longleftrightarrow>
     g \<le> 1074 \<and> on_grid g t \<and> (\<forall>s \<in> set segments. on_grid g s) \<and>
     (sum_list (map abs segments) + 2 * real (length segments) * \<bar>t\<bar>) * 2 ^ g \<le> 2 ^ 53"

section \<open>Properties of the rounding \<open>rnd\<close>\<close>

lemma round_even_int: "round_even (of_int k) = k"
  by (simp add: round_even_def)

lemma round_even_bounds: "r - 1 / 2 \<le> of_int (round_even r)" "of_int (round_even r) \<le> r + 1 / 2"
  unfolding round_even_def Let_def by (auto; linarith)+

lemma round_even_floor: "\<lfloor>r\<rfloor> \<le> round_even r" "round_even r \<le> \<lfloor>r\<rfloor> + 1"
  unfolding round_even_def Let_def by auto

lemma round_even_mono:
  assumes "r \<le> s"
  shows "round_even r \<le> round_even s"
proof (cases "\<lfloor>r\<rfloor> = \<lfloor>s\<rfloor>")
  case True
  with assms show ?thesis unfolding round_even_def Let_def by auto
next
  case False
  with assms have "\<lfloor>r\<rfloor> < \<lfloor>s\<rfloor>" using floor_mono [of r s] by linarith
  then show ?thesis using round_even_floor(2) [of r] round_even_floor(1) [of s] by linarith
qed

lemma round_even_eqI:
  assumes "of_int m - 1 / 2 < r" "r < of_int m + 1 / 2"
  shows "round_even r = m"
proof -
  have "\<lfloor>r\<rfloor> = m \<or> \<lfloor>r\<rfloor> = m - 1" using assms by linarith
  then show ?thesis
  proof
    assume f: "\<lfloor>r\<rfloor> = m"
    with assms show ?thesis unfolding round_even_def Let_def by auto
  next
    assume f: "\<lfloor>r\<rfloor> = m - 1"
    with assms show ?thesis unfolding round_even_def Let_def by auto
  qed
qed

lemma round_even_minus: "round_even (- r) = - round_even r"
proof (cases "r \<in> \<int>")
  case True
  then obtain k where "r = of_int k" by (auto elim: Ints_cases)
  then show ?thesis using round_even_int [of "- k"] round_even_int [of k] by simp
next
  case False
  then have "r \<noteq> of_int \<lfloor>r\<rfloor>" by (metis Ints_of_int)
  then have "\<lceil>r\<rceil> = \<lfloor>r\<rfloor> + 1" by (simp add: ceiling_altdef)
  then have f: "\<lfloor>- r\<rfloor> = - \<lfloor>r\<rfloor> - 1" by (simp add: ceiling_def)
  show ?thesis
    unfolding round_even_def Let_def f by auto
qed

lemma expo_minus: "expo (- x) = expo x"
  by (simp add: expo_def)

lemma expo_abs: "expo \<bar>x\<bar> = expo x"
  by (simp add: expo_def)

lemma expo_normal:
  assumes "2 powr (- 1022) \<le> \<bar>x\<bar>"
  shows "2 powr (of_int (expo x)) \<le> \<bar>x\<bar>" and "\<bar>x\<bar> < 2 powr (of_int (expo x) + 1)"
    and "- 1022 \<le> expo x"
proof -
  have p: "0 < \<bar>x\<bar>" using assms by (smt (verit) powr_gt_zero)
  have e: "expo x = \<lfloor>log 2 \<bar>x\<bar>\<rfloor>" using assms by (simp add: expo_def)
  have "of_int (expo x) \<le> log 2 \<bar>x\<bar>" unfolding e by simp
  then show "2 powr (of_int (expo x)) \<le> \<bar>x\<bar>" using p by (simp add: le_log_iff)
  have "log 2 \<bar>x\<bar> < of_int (expo x) + 1" unfolding e by linarith
  then show "\<bar>x\<bar> < 2 powr (of_int (expo x) + 1)" using p by (simp add: log_less_iff)
  have "- 1022 \<le> log 2 \<bar>x\<bar>" using assms p by (simp add: le_log_iff)
  then show "- 1022 \<le> expo x" unfolding e by (simp add: le_floor_iff)
qed

lemma expo_ge: "- 1022 \<le> expo x"
  using expo_normal(3) [of x] by (cases "\<bar>x\<bar> < 2 powr (- 1022)") (simp_all add: expo_def)

lemma expo_upper: "\<bar>x\<bar> < 2 powr (of_int (expo x) + 1)"
proof (cases "\<bar>x\<bar> < 2 powr (- 1022)")
  case True
  then have "expo x = - 1022" by (simp add: expo_def)
  moreover have "(2::real) powr (- 1022) \<le> 2 powr (- 1021)" by (rule powr_mono) simp_all
  then have "\<bar>x\<bar> < 2 powr (- 1021)" using True by linarith
  ultimately show ?thesis by simp
next
  case False
  then show ?thesis using expo_normal(2) [of x] by simp
qed

lemma expo_eqI:
  assumes "- 1022 \<le> e" "2 powr (of_int e) \<le> \<bar>x\<bar>" "\<bar>x\<bar> < 2 powr (of_int e + 1)"
  shows "expo x = e"
proof -
  have "(2::real) powr (- 1022) \<le> 2 powr (of_int e)"
    using assms(1) by (intro powr_mono) simp_all
  with assms have n: "2 powr (- 1022) \<le> \<bar>x\<bar>" by linarith
  then have p: "0 < \<bar>x\<bar>" by (smt (verit) powr_gt_zero)
  from n have ex: "expo x = \<lfloor>log 2 \<bar>x\<bar>\<rfloor>" by (simp add: expo_def)
  have "of_int e \<le> log 2 \<bar>x\<bar>" using assms(2) p by (simp add: le_log_iff)
  moreover have "log 2 \<bar>x\<bar> < of_int e + 1" using assms(3) p by (simp add: log_less_iff)
  ultimately show ?thesis unfolding ex by linarith
qed

lemma expo_mono:
  assumes "\<bar>x\<bar> \<le> \<bar>y\<bar>"
  shows "expo x \<le> expo y"
proof (cases "\<bar>x\<bar> < 2 powr (- 1022)")
  case True
  then show ?thesis using expo_ge [of y] by (simp add: expo_def)
next
  case False
  then have nx: "2 powr (- 1022) \<le> \<bar>x\<bar>" by simp
  with assms have ny: "2 powr (- 1022) \<le> \<bar>y\<bar>" by linarith
  have px: "0 < \<bar>x\<bar>" using nx by (smt (verit) powr_gt_zero)
  have "log 2 \<bar>x\<bar> \<le> log 2 \<bar>y\<bar>" using assms px by simp
  then show ?thesis using nx ny by (simp add: expo_def floor_mono)
qed

lemma rnd_0: "rnd 0 = 0"
  by (simp add: rnd_def round_even_def Let_def)

lemma rnd_minus: "rnd (- x) = - rnd x"
  by (simp add: rnd_def Let_def expo_minus round_even_minus)

lemma rnd_eval:
  assumes "- 1022 \<le> e" "2 powr (of_int e) \<le> \<bar>x\<bar>" "\<bar>x\<bar> < 2 powr (of_int e + 1)"
  shows "rnd x = of_int (round_even (x / 2 powr (of_int e - 52))) * 2 powr (of_int e - 52)"
  using expo_eqI [OF assms] by (simp add: rnd_def Let_def)

lemma rnd_error: "\<bar>rnd x - x\<bar> \<le> 2 powr (of_int (expo x) - 53)"
proof -
  define q :: real where "q = 2 powr (of_int (expo x) - 52)"
  have q: "0 < q" by (simp add: q_def)
  have h: "q / 2 = 2 powr (of_int (expo x) - 53)"
    unfolding q_def by (simp add: powr_diff)
  have r: "rnd x = of_int (round_even (x / q)) * q" by (simp add: rnd_def q_def Let_def)
  have "\<bar>of_int (round_even (x / q)) - x / q\<bar> \<le> 1 / 2"
    using round_even_bounds [of "x / q"] by linarith
  then have "\<bar>of_int (round_even (x / q)) - x / q\<bar> * q \<le> 1 / 2 * q"
    using q by (intro mult_right_mono) simp_all
  moreover have "\<bar>of_int (round_even (x / q)) - x / q\<bar> * q = \<bar>rnd x - x\<bar>"
  proof -
    have "(of_int (round_even (x / q)) - x / q) * q = rnd x - x"
      using q unfolding r by (simp add: left_diff_distrib)
    moreover have "\<bar>(of_int (round_even (x / q)) - x / q) * q\<bar> =
        \<bar>of_int (round_even (x / q)) - x / q\<bar> * q"
      using q by (simp add: abs_mult)
    ultimately show ?thesis by simp
  qed
  ultimately show ?thesis using h by simp
qed

lemma rnd_sign: "0 \<le> x \<Longrightarrow> 0 \<le> rnd x" "x \<le> 0 \<Longrightarrow> rnd x \<le> 0"
proof -
  define q :: real where "q = 2 powr (of_int (expo x) - 52)"
  have q: "0 < q" by (simp add: q_def)
  have r: "rnd x = of_int (round_even (x / q)) * q" by (simp add: rnd_def q_def Let_def)
  show "0 \<le> rnd x" if "0 \<le> x"
  proof -
    have "0 \<le> x / q" using that q by simp
    then have "round_even 0 \<le> round_even (x / q)" by (rule round_even_mono)
    then have "0 \<le> round_even (x / q)" using round_even_int [of 0] by simp
    then show ?thesis unfolding r using q by simp
  qed
  show "rnd x \<le> 0" if "x \<le> 0"
  proof -
    have "x / q \<le> 0" using that q by (simp add: divide_le_0_iff)
    then have "round_even (x / q) \<le> round_even 0" by (rule round_even_mono)
    then have "round_even (x / q) \<le> 0" using round_even_int [of 0] by simp
    then show ?thesis unfolding r using q by (simp add: mult_le_0_iff)
  qed
qed

lemma rnd_upper: "\<bar>rnd x\<bar> \<le> 2 powr (of_int (expo x) + 1)"
proof -
  have m: "rnd x \<le> 2 powr (of_int (expo x) + 1)" if "0 \<le> x" for x
  proof -
    define q :: real where "q = 2 powr (of_int (expo x) - 52)"
    have q: "0 < q" by (simp add: q_def)
    have r: "rnd x = of_int (round_even (x / q)) * q" by (simp add: rnd_def q_def Let_def)
    have t: "2 ^ 53 * q = 2 powr (of_int (expo x) + 1)"
    proof -
      have "(2::real) ^ 53 = 2 powr 53" by simp
      then have "2 ^ 53 * q = 2 powr 53 * 2 powr (of_int (expo x) - 52)" by (simp only: q_def)
      also have "\<dots> = 2 powr (53 + (of_int (expo x) - 52))" by (simp only: powr_add)
      finally show ?thesis by (simp add: algebra_simps)
    qed
    have "x < 2 ^ 53 * q" using expo_upper [of x] that unfolding t by simp
    then have "x / q \<le> of_int (2 ^ 53)" using q by (simp add: pos_divide_le_eq)
    then have "round_even (x / q) \<le> round_even (of_int (2 ^ 53))" by (rule round_even_mono)
    then have "round_even (x / q) \<le> 2 ^ 53" by (simp only: round_even_int)
    then have "(of_int (round_even (x / q)) :: real) \<le> 2 ^ 53"
      by (metis of_int_le_iff of_int_numeral of_int_power)
    then have "of_int (round_even (x / q)) * q \<le> 2 ^ 53 * q"
      using q by (intro mult_right_mono) simp_all
    then show ?thesis unfolding r t .
  qed
  show ?thesis
  proof (cases "0 \<le> x")
    case True
    then show ?thesis using m [of x] rnd_sign(1) [of x] by simp
  next
    case False
    then have "0 \<le> - x" by simp
    from m [OF this] rnd_sign(1) [OF this] show ?thesis
      by (simp add: rnd_minus expo_minus)
  qed
qed

lemma rnd_lower:
  assumes "2 powr (- 1022) \<le> x"
  shows "2 powr (of_int (expo x)) \<le> rnd x"
proof -
  define q :: real where "q = 2 powr (of_int (expo x) - 52)"
  have q: "0 < q" by (simp add: q_def)
  have r: "rnd x = of_int (round_even (x / q)) * q" by (simp add: rnd_def q_def Let_def)
  have x0: "0 < x" using assms by (smt (verit) powr_gt_zero)
  have t: "2 ^ 52 * q = 2 powr (of_int (expo x))"
  proof -
    have "(2::real) ^ 52 = 2 powr 52" by simp
    then have "2 ^ 52 * q = 2 powr 52 * 2 powr (of_int (expo x) - 52)" by (simp only: q_def)
    also have "\<dots> = 2 powr (52 + (of_int (expo x) - 52))" by (simp only: powr_add)
    finally show ?thesis by (simp add: algebra_simps)
  qed
  have "2 ^ 52 * q \<le> x" using expo_normal(1) [of x] assms x0 unfolding t by simp
  then have "of_int (2 ^ 52) \<le> x / q" using q by (simp add: pos_le_divide_eq)
  then have "round_even (of_int (2 ^ 52)) \<le> round_even (x / q)" by (rule round_even_mono)
  then have "2 ^ 52 \<le> round_even (x / q)" by (simp only: round_even_int)
  then have "(2 ^ 52 :: real) \<le> of_int (round_even (x / q))"
    by (metis of_int_le_iff of_int_numeral of_int_power)
  then have "2 ^ 52 * q \<le> of_int (round_even (x / q)) * q"
    using q by (intro mult_right_mono) simp_all
  then show ?thesis unfolding r t .
qed

lemma rnd_mono_pos:
  assumes "0 \<le> x" "x \<le> y"
  shows "rnd x \<le> rnd y"
proof -
  have le: "expo x \<le> expo y" using assms by (intro expo_mono) simp
  show ?thesis
  proof (cases "expo x = expo y")
    case True
    define q :: real where "q = 2 powr (of_int (expo x) - 52)"
    have q: "0 < q" by (simp add: q_def)
    have "x / q \<le> y / q" using assms q by (simp add: divide_right_mono)
    then have "round_even (x / q) \<le> round_even (y / q)" by (rule round_even_mono)
    then have "of_int (round_even (x / q)) * q \<le> of_int (round_even (y / q)) * q"
      using q by (intro mult_right_mono) simp_all
    then show ?thesis using True by (simp add: rnd_def Let_def q_def)
  next
    case False
    with le have lt: "expo x < expo y" by simp
    then have "- 1022 < expo y" using expo_ge [of x] by linarith
    then have "\<not> \<bar>y\<bar> < 2 powr (- 1022)" by (auto simp: expo_def)
    then have ny: "2 powr (- 1022) \<le> y" using assms by simp
    have "rnd x \<le> 2 powr (of_int (expo x) + 1)" using rnd_upper [of x] by linarith
    also have "\<dots> \<le> 2 powr (of_int (expo y))"
      using lt by (intro powr_mono) simp_all
    also have "\<dots> \<le> rnd y" by (rule rnd_lower [OF ny])
    finally show ?thesis .
  qed
qed

lemma rnd_mono:
  assumes "x \<le> y"
  shows "rnd x \<le> rnd y"
proof -
  consider "0 \<le> x" | "x < 0" "0 \<le> y" | "y < 0" by linarith
  then show ?thesis
  proof cases
    case 1
    then show ?thesis using assms by (rule rnd_mono_pos)
  next
    case 2
    then show ?thesis using rnd_sign(2) [of x] rnd_sign(1) [of y] by linarith
  next
    case 3
    then have "0 \<le> - y" "- y \<le> - x" using assms by simp_all
    then have "rnd (- y) \<le> rnd (- x)" by (rule rnd_mono_pos)
    then show ?thesis by (simp add: rnd_minus)
  qed
qed

lemma rnd_exact_strict:
  assumes "\<bar>k\<bar> < 2 ^ 53" "- 1074 \<le> e"
  shows "rnd (of_int k * 2 powr (of_int e)) = of_int k * 2 powr (of_int e)"
proof -
  define x :: real where "x = of_int k * 2 powr (of_int e)"
  define q :: real where "q = 2 powr (of_int (expo x) - 52)"
  have q: "0 < q" by (simp add: q_def)
  have le: "expo x - 52 \<le> e"
  proof (rule ccontr)
    assume "\<not> expo x - 52 \<le> e"
    then have gt: "e + 53 \<le> expo x" by simp
    with assms(2) have "- 1022 < expo x" by simp
    then have "\<not> \<bar>x\<bar> < 2 powr (- 1022)" by (auto simp: expo_def)
    then have "2 powr (of_int (expo x)) \<le> \<bar>x\<bar>" using expo_normal(1) [of x] by simp
    moreover have "\<bar>x\<bar> < 2 powr (of_int (e + 53))"
    proof -
      have "\<bar>x\<bar> = \<bar>of_int k\<bar> * 2 powr (of_int e)" by (simp add: x_def abs_mult)
      moreover have "\<bar>of_int k :: real\<bar> < 2 ^ 53"
        using assms(1) by (metis of_int_abs of_int_less_iff of_int_numeral of_int_power)
      ultimately have "\<bar>x\<bar> < 2 ^ 53 * 2 powr (of_int e)" by simp
      moreover have "(2::real) ^ 53 * 2 powr (of_int e) = 2 powr (of_int (e + 53))"
      proof -
        have "(2::real) ^ 53 = 2 powr 53" by simp
        then have "(2::real) ^ 53 * 2 powr (of_int e) = 2 powr 53 * 2 powr (of_int e)" by simp
        also have "\<dots> = 2 powr (53 + of_int e)" by (simp only: powr_add)
        finally show ?thesis by (simp add: algebra_simps)
      qed
      ultimately show ?thesis by simp
    qed
    moreover have "(2::real) powr (of_int (e + 53)) \<le> 2 powr (of_int (expo x))"
      using gt by (intro powr_mono) simp_all
    ultimately show False by linarith
  qed
  define d where "d = nat (e - (expo x - 52))"
  have d: "of_int e = of_int (expo x) - 52 + real d" using le by (simp add: d_def)
  have "2 powr (of_int e) = q * 2 ^ d"
    unfolding d q_def by (simp add: powr_add powr_realpow)
  then have xq: "x / q = of_int (k * 2 ^ d)" using q by (simp add: x_def)
  have "rnd x = of_int (round_even (x / q)) * q" by (simp add: rnd_def q_def Let_def)
  also have "\<dots> = of_int (k * 2 ^ d) * q" unfolding xq by (simp only: round_even_int)
  also have "\<dots> = x" using xq q by (simp add: field_simps)
  finally show ?thesis by (simp add: x_def)
qed

lemma rnd_exact:
  assumes "\<bar>k\<bar> \<le> 2 ^ 53" "- 1074 \<le> e"
  shows "rnd (of_int k * 2 powr (of_int e)) = of_int k * 2 powr (of_int e)"
proof (cases "\<bar>k\<bar> < 2 ^ 53")
  case True
  then show ?thesis using assms(2) by (rule rnd_exact_strict)
next
  case False
  with assms have "\<bar>k\<bar> = 2 ^ 53" by simp
  then have "k = 2 ^ 53 \<or> k = - (2 ^ 53)" by linarith
  then have k: "k = 2 * (k div 2)" and h: "\<bar>k div 2\<bar> < 2 ^ 53" by auto
  have "real_of_int k * 2 powr (of_int e) = of_int (k div 2) * 2 powr (of_int (e + 1))"
  proof -
    have "real_of_int k = 2 * of_int (k div 2)" using k by (metis of_int_mult of_int_numeral)
    then show ?thesis by (simp add: powr_add)
  qed
  moreover have "rnd (of_int (k div 2) * 2 powr (of_int (e + 1))) = of_int (k div 2) * 2 powr (of_int (e + 1))"
    using h assms(2) by (intro rnd_exact_strict) simp_all
  ultimately show ?thesis by simp
qed

lemma rnd_int: "\<bar>k\<bar> \<le> 2 ^ 53 \<Longrightarrow> rnd (of_int k) = of_int k"
  using rnd_exact [of k 0] by simp

lemma rnd_rnd: "rnd (rnd x) = rnd x"
proof -
  define q :: real where "q = 2 powr (of_int (expo x) - 52)"
  define m where "m = round_even (x / q)"
  have q: "0 < q" by (simp add: q_def)
  have r: "rnd x = of_int m * 2 powr (of_int (expo x - 52))"
    by (simp add: rnd_def q_def m_def Let_def)
  have t: "2 ^ 53 * q = 2 powr (of_int (expo x) + 1)"
  proof -
    have "(2::real) ^ 53 = 2 powr 53" by simp
    then have "2 ^ 53 * q = 2 powr 53 * 2 powr (of_int (expo x) - 52)" by (simp only: q_def)
    also have "\<dots> = 2 powr (53 + (of_int (expo x) - 52))" by (simp only: powr_add)
    finally show ?thesis by (simp add: algebra_simps)
  qed
  have "\<bar>of_int m * q\<bar> \<le> 2 ^ 53 * q"
    using rnd_upper [of x] unfolding t by (simp add: rnd_def q_def m_def Let_def)
  then have "\<bar>real_of_int m\<bar> * q \<le> 2 ^ 53 * q" using q by (simp add: abs_mult)
  then have "\<bar>real_of_int m\<bar> \<le> 2 ^ 53" using q by simp
  then have "\<bar>m\<bar> \<le> 2 ^ 53"
    by (metis of_int_abs of_int_le_iff of_int_numeral of_int_power)
  moreover have "- 1074 \<le> expo x - 52" using expo_ge [of x] by simp
  ultimately show ?thesis unfolding r by (rule rnd_exact)
qed

lemma rnd_error_unit:
  assumes "\<bar>x\<bar> \<le> 1"
  shows "\<bar>rnd x - x\<bar> \<le> 1 / 2 ^ 53"
proof -
  have "expo 1 = 0" by (rule expo_eqI) simp_all
  moreover have "expo x \<le> expo 1" using assms by (intro expo_mono) simp
  ultimately have "expo x \<le> 0" by simp
  then have "(2::real) powr (of_int (expo x) - 53) \<le> 2 powr (- 53)"
    by (intro powr_mono) simp_all
  moreover have "(2::real) powr (- 53) = 1 / 2 ^ 53" by (simp add: powr_neg_numeral)
  ultimately show ?thesis using rnd_error [of x] by linarith
qed

lemma rnd_error_rel:
  assumes "2 powr (- 1022) \<le> \<bar>x\<bar>"
  shows "\<bar>rnd x - x\<bar> \<le> \<bar>x\<bar> / 2 ^ 53"
proof -
  have "(2::real) powr (of_int (expo x) - 53) = 2 powr (of_int (expo x)) / 2 ^ 53"
    by (simp add: powr_diff)
  also have "\<dots> \<le> \<bar>x\<bar> / 2 ^ 53"
    using expo_normal(1) [OF assms] by (simp add: divide_right_mono)
  finally show ?thesis using rnd_error [of x] by linarith
qed

lemma rnd_tenth: "rnd (1 / 10) = 3602879701896397 / 36028797018963968"
proof -
  have "rnd (1 / 10) = of_int (round_even ((1 / 10) / 2 powr (of_int (- 4) - 52))) * 2 powr (of_int (- 4) - 52)"
    by (rule rnd_eval) (simp_all add: powr_neg_numeral)
  moreover have "round_even ((1 / 10) / 2 powr (of_int (- 4) - 52)) = 7205759403792794"
    by (rule round_even_eqI) (simp_all add: powr_neg_numeral)
  ultimately show ?thesis by (simp add: powr_neg_numeral)
qed

text \<open>Numbers on a binary grid of moderate size are binary64 values.\<close>

lemma rnd_grid:
  assumes "x * 2 ^ g \<in> \<int>" "\<bar>x\<bar> * 2 ^ g \<le> 2 ^ 53" "g \<le> 1074"
  shows "rnd x = x"
proof -
  from assms(1) obtain k where k: "x * 2 ^ g = of_int k" by (auto elim: Ints_cases)
  have "\<bar>real_of_int k\<bar> \<le> 2 ^ 53" using assms(2) k by (simp add: abs_mult flip: k)
  then have a: "\<bar>k\<bar> \<le> 2 ^ 53" by (metis of_int_abs of_int_le_iff of_int_numeral of_int_power)
  have b: "- 1074 \<le> - int g" using assms(3) by simp
  have "(2::real) powr (of_int (- int g)) = 1 / 2 ^ g"
    by (simp add: powr_minus_divide powr_realpow)
  then have "of_int k * 2 powr (of_int (- int g)) = x" using k by (simp flip: k)
  with rnd_exact [OF a b] show ?thesis by simp
qed

lemma rnd_quarters: "x * 4 \<in> \<int> \<Longrightarrow> \<bar>x\<bar> \<le> 2 ^ 51 \<Longrightarrow> rnd x = x"
  using rnd_grid [of x 2] by simp

section \<open>Properties of the writer\<close>

lemma join_lines_append:
  "xs \<noteq> [] \<Longrightarrow> ys \<noteq> [] \<Longrightarrow> join_lines (xs @ ys) = join_lines xs @ newline # join_lines ys"
proof (induction xs rule: join_lines.induct)
  case 1
  then show ?case by simp
next
  case (2 l)
  then show ?case by (cases ys) simp_all
next
  case (3 l m ls)
  then show ?case by simp
qed

lemma toString_again:
  "fst (toString (snd (toString w))) =
     fst (toString w) @ ''\<newline>0\<newline>ENDSEC\<newline>0\<newline>EOF''"
proof -
  have "join_lines ((content w @ [''0'', ''ENDSEC'', ''0'', ''EOF'']) @ [''0'', ''ENDSEC'', ''0'', ''EOF''])
      = join_lines (content w @ [''0'', ''ENDSEC'', ''0'', ''EOF'']) @
        newline # join_lines [''0'', ''ENDSEC'', ''0'', ''EOF'']"
    by (rule join_lines_append) simp_all
  then show ?thesis
    by (simp add: toString_def Let_def newline_def)
qed

section \<open>Evaluating the parser\<close>

lemmas parseInt_eval =
  parseInt_def Let_def is_space_def is_digit_def digits_val_def digit_val_def index_of_def

lemma parseInt_codes:
  "parseInt ''0'' = Some 0" "parseInt ''1'' = Some 1" "parseInt ''2'' = Some 2"
  "parseInt ''6'' = Some 6" "parseInt ''8'' = Some 8" "parseInt ''9'' = Some 9"
  "parseInt ''10'' = Some 10" "parseInt ''11'' = Some 11" "parseInt ''20'' = Some 20"
  "parseInt ''21'' = Some 21" "parseInt ''30'' = Some 30" "parseInt ''31'' = Some 31"
  "parseInt ''40'' = Some 40" "parseInt ''50'' = Some 50" "parseInt ''62'' = Some 62"
  "parseInt ''66'' = Some 66" "parseInt ''70'' = Some 70"
  by (simp_all add: parseInt_eval)

section \<open>Properties of the tray layout and of the generator\<close>


lemma content_foldl_pairs:
  assumes "\<And>w x. content (f w x) = content w @ g x"
  shows "content (foldl f w xs) = content w @ concat (map g xs)"
  by (induction xs arbitrary: w) (simp_all add: assms)



section \<open>Printing and reading decimal numbers\<close>

lemma digit_char_props:
  assumes "d < 10"
  shows "is_digit (digit_char d)" and "digit_val (digit_char d) = d"
proof -
  from assms have "d \<in> {0, 1, 2, 3, 4, 5, 6, 7, 8, 9}" by auto
  then show "is_digit (digit_char d)" and "digit_val (digit_char d) = d"
    by (auto simp: is_digit_def digit_char_def digit_val_def index_of_def)
qed

lemma is_digit_not_other:
  assumes "is_digit c"
  shows "\<not> is_space c" "c \<noteq> CHR ''-''" "c \<noteq> CHR ''+''" "c \<noteq> CHR ''.''" "c \<noteq> CHR ''I''"
    "c \<noteq> newline"
  using assms by (auto simp: is_digit_def is_space_def newline_def)

lemma nat_digits_all_digits: "\<forall>c \<in> set (nat_digits n). is_digit c"
proof (induction n rule: nat_digits.induct)
  case (1 n)
  show ?case
  proof (cases "n < 10")
    case True
    then show ?thesis by (subst nat_digits.simps) (simp add: digit_char_props)
  next
    case False
    with 1 show ?thesis by (subst nat_digits.simps) (simp add: digit_char_props)
  qed
qed

lemma nat_digits_nonempty: "nat_digits n \<noteq> []"
  by (subst nat_digits.simps) simp

lemma digits_val_foldl:
  "foldl (\<lambda>a c. 10 * a + digit_val c) a ds = a * 10 ^ length ds + digits_val ds"
  unfolding digits_val_def
proof (induction ds arbitrary: a)
  case Nil
  then show ?case by simp
next
  case (Cons d ds)
  let ?f = "\<lambda>a c. 10 * a + digit_val c"
  have "foldl ?f (10 * a + digit_val d) ds = (10 * a + digit_val d) * 10 ^ length ds + foldl ?f 0 ds"
    by (rule Cons.IH)
  moreover have "foldl ?f (digit_val d) ds = digit_val d * 10 ^ length ds + foldl ?f 0 ds"
    by (rule Cons.IH)
  ultimately show ?case by (simp add: algebra_simps)
qed

lemma digits_val_append:
  "digits_val (xs @ ys) = digits_val xs * 10 ^ length ys + digits_val ys"
  using digits_val_foldl [of "digits_val xs" ys] by (simp add: digits_val_def)

lemma digits_val_nat_digits: "digits_val (nat_digits n) = n"
proof (induction n rule: nat_digits.induct)
  case (1 n)
  show ?case
  proof (cases "n < 10")
    case True
    then show ?thesis
      by (subst nat_digits.simps) (simp add: digits_val_def digit_char_props)
  next
    case False
    then have "digits_val (nat_digits (n div 10)) = n div 10" using 1 by simp
    moreover have "digits_val [digit_char (n mod 10)] = n mod 10"
      by (simp add: digits_val_def digit_char_props)
    ultimately show ?thesis using False
      by (subst nat_digits.simps) (simp add: digits_val_append)
  qed
qed

lemma digits_val_zeros: "digits_val (replicate k (CHR ''0'')) = 0"
  by (induction k) (simp_all add: digits_val_def digit_val_def index_of_def)

lemma digits_val_padded: "digits_val (replicate k (CHR ''0'') @ nat_digits n) = n"
  by (simp add: digits_val_append digits_val_zeros digits_val_nat_digits)

lemma parse_unsigned_decimal:
  assumes "ip \<noteq> []" and ip: "\<forall>c \<in> set ip. is_digit c" and fp: "\<forall>c \<in> set fp. is_digit c"
  shows "parse_unsigned (ip @ CHR ''.'' # fp) =
           Fin (real (digits_val ip) + real (digits_val fp) / 10 ^ length fp)"
proof -
  from assms(1) obtain d ip' where c: "ip = d # ip'" by (cases ip) auto
  with ip have d: "is_digit d" by simp
  have tw: "takeWhile is_digit (ip @ CHR ''.'' # fp) = ip"
    using ip by (simp add: takeWhile_append2 is_digit_def)
  have dw: "dropWhile is_digit (ip @ CHR ''.'' # fp) = CHR ''.'' # fp"
    using ip by (simp add: dropWhile_append2 is_digit_def)
  have twf: "takeWhile is_digit fp = fp" using fp by (simp add: takeWhile_eq_all_conv)
  have dwf: "dropWhile is_digit fp = []" using fp by simp
  have "hd (take 8 (ip @ CHR ''.'' # fp)) = d" by (simp add: c)
  moreover have "hd ''Infinity'' \<noteq> d" using is_digit_not_other(5) [OF d] by simp
  ultimately have inf: "take 8 (ip @ CHR ''.'' # fp) \<noteq> ''Infinity''" by metis
  show ?thesis
    unfolding parse_unsigned_def Let_def tw dw
    by (simp only: inf if_False list.sel twf dwf assms(1)) simp
qed

lemma parseFloat_decimal:
  assumes "ip \<noteq> []" and ip: "\<forall>c \<in> set ip. is_digit c" and fp: "\<forall>c \<in> set fp. is_digit c"
  shows "parseFloat (ip @ ''.'' @ fp) = Fin (real (digits_val ip) + real (digits_val fp) / 10 ^ length fp)"
    and "parseFloat (''-'' @ ip @ ''.'' @ fp) =
           Fin (- (real (digits_val ip) + real (digits_val fp) / 10 ^ length fp))"
proof -
  from assms(1) obtain d ip' where c: "ip = d # ip'" by (cases ip) auto
  with ip have d: "is_digit d" by simp
  have sp: "dropWhile is_space (ip @ CHR ''.'' # fp) = ip @ CHR ''.'' # fp"
    and hd: "hd (ip @ CHR ''.'' # fp) = d"
    using c is_digit_not_other(1) [OF d] by simp_all
  show "parseFloat (ip @ ''.'' @ fp) = Fin (real (digits_val ip) + real (digits_val fp) / 10 ^ length fp)"
    using is_digit_not_other(2,3) [OF d] parse_unsigned_decimal [OF assms]
    by (simp add: parseFloat_def Let_def sp hd del: dropWhile_append)
  have spm: "dropWhile is_space (CHR ''-'' # ip @ CHR ''.'' # fp) = CHR ''-'' # ip @ CHR ''.'' # fp"
    by (simp add: is_space_def)
  show "parseFloat (''-'' @ ip @ ''.'' @ fp) =
           Fin (- (real (digits_val ip) + real (digits_val fp) / 10 ^ length fp))"
    using parse_unsigned_decimal [OF assms]
    by (simp add: parseFloat_def Let_def spm del: dropWhile_append dropWhile.simps)
qed

lemma round3_near: "\<bar>round3 x - x\<bar> \<le> 1 / 2000"
proof -
  define n where "n = nat \<lfloor>\<bar>x\<bar> * 1000 + 1 / 2\<rfloor>"
  have nn: "0 \<le> \<lfloor>\<bar>x\<bar> * 1000 + 1 / 2\<rfloor>" by simp
  then have r: "real n = of_int \<lfloor>\<bar>x\<bar> * 1000 + 1 / 2\<rfloor>" by (simp add: n_def)
  have "of_int \<lfloor>\<bar>x\<bar> * 1000 + 1 / 2\<rfloor> \<le> \<bar>x\<bar> * 1000 + 1 / 2"
    "\<bar>x\<bar> * 1000 + 1 / 2 < of_int \<lfloor>\<bar>x\<bar> * 1000 + 1 / 2\<rfloor> + 1"
    by linarith+
  with r have "real n \<le> \<bar>x\<bar> * 1000 + 1 / 2" "\<bar>x\<bar> * 1000 + 1 / 2 < real n + 1" by simp_all
  then have "real n / 1000 - \<bar>x\<bar> \<le> 1 / 2000" "- (1 / 2000) \<le> real n / 1000 - \<bar>x\<bar>"
    by (simp_all add: field_simps)
  then have "\<bar>real n / 1000 - \<bar>x\<bar>\<bar> \<le> 1 / 2000" by (simp only: abs_le_iff) simp
  then have "\<bar>real n / 1000 - \<bar>x\<bar>\<bar> \<le> 1 / 2000 \<and> \<bar>- (real n / 1000) + \<bar>x\<bar>\<bar> \<le> 1 / 2000"
    by (simp add: abs_minus_commute)
  then show ?thesis
    unfolding round3_def n_def [symmetric] by (cases "x < 0") auto
qed

lemma toFixed3_shape:
  "\<exists>ip fp. ip \<noteq> [] \<and> (\<forall>c \<in> set ip. is_digit c) \<and> (\<forall>c \<in> set fp. is_digit c) \<and> length fp = 3 \<and>
     digits_val ip * 1000 + digits_val fp = nat \<lfloor>\<bar>x\<bar> * 1000 + 1 / 2\<rfloor> \<and>
     toFixed 3 x = (if x < 0 then ''-'' else []) @ ip @ ''.'' @ fp"
proof -
  define n where "n = nat \<lfloor>\<bar>x\<bar> * 10 ^ 3 + 1 / 2\<rfloor>"
  define m where "m = replicate (Suc 3 - length (nat_digits n)) (CHR ''0'') @ nat_digits n"
  define k where "k = length m"
  have n': "n = nat \<lfloor>\<bar>x\<bar> * 1000 + 1 / 2\<rfloor>" by (simp add: n_def)
  have k4: "4 \<le> k" by (simp add: k_def m_def)
  have z: "is_digit (CHR ''0'')" by (simp add: is_digit_def)
  have dig: "\<forall>c \<in> set m. is_digit c"
    unfolding m_def using nat_digits_all_digits [of n] z by auto
  have val: "digits_val m = n" unfolding m_def by (rule digits_val_padded)
  let ?ip = "take (k - 3) m" and ?fp = "drop (k - 3) m"
  have "?ip \<noteq> []" using k4 by (auto simp: k_def)
  moreover have "\<forall>c \<in> set ?ip. is_digit c" using dig by (meson in_set_takeD)
  moreover have "\<forall>c \<in> set ?fp. is_digit c" using dig by (meson in_set_dropD)
  moreover have l3: "length ?fp = 3" using k4 by (simp add: k_def)
  moreover have "digits_val ?ip * 1000 + digits_val ?fp = n"
    using digits_val_append [of ?ip ?fp] l3 val by simp
  moreover have "toFixed 3 x = (if x < 0 then ''-'' else []) @ ?ip @ ''.'' @ ?fp"
    unfolding toFixed_def Let_def n_def [symmetric] m_def [symmetric] k_def [symmetric]
    by simp
  ultimately show ?thesis unfolding n' by blast
qed

lemma parseFloat_toFixed3: "parseFloat (toFixed 3 x) = Fin (round3 x)"
proof -
  from toFixed3_shape [of x] obtain ip fp where
    ip: "ip \<noteq> []" "\<forall>c \<in> set ip. is_digit c" and fp: "\<forall>c \<in> set fp. is_digit c" "length fp = 3"
    and v: "digits_val ip * 1000 + digits_val fp = nat \<lfloor>\<bar>x\<bar> * 1000 + 1 / 2\<rfloor>"
    and s: "toFixed 3 x = (if x < 0 then ''-'' else []) @ ip @ ''.'' @ fp"
    by blast
  from v have "real (digits_val ip) * 1000 + real (digits_val fp) = real (nat \<lfloor>\<bar>x\<bar> * 1000 + 1 / 2\<rfloor>)"
    by (metis of_nat_add of_nat_mult of_nat_numeral)
  then have m: "real (digits_val ip) + real (digits_val fp) / 10 ^ length fp =
      real (nat \<lfloor>\<bar>x\<bar> * 1000 + 1 / 2\<rfloor>) / 1000"
    using fp(2) by (simp add: field_simps)
  show ?thesis
  proof (cases "x < 0")
    case True
    with s have "toFixed 3 x = ''-'' @ ip @ ''.'' @ fp" by simp
    then show ?thesis
      using parseFloat_decimal(2) [OF ip fp(1)] m True by (simp add: round3_def)
  next
    case False
    with s have "toFixed 3 x = ip @ ''.'' @ fp" by simp
    then show ?thesis
      using parseFloat_decimal(1) [OF ip fp(1)] m False by (simp add: round3_def)
  qed
qed

lemma toFixed3_chars: "\<forall>c \<in> set (toFixed 3 x). \<not> is_space c \<and> c \<noteq> newline"
proof -
  from toFixed3_shape [of x] obtain ip fp where
    ip: "\<forall>c \<in> set ip. is_digit c" and fp: "\<forall>c \<in> set fp. is_digit c"
    and s: "toFixed 3 x = (if x < 0 then ''-'' else []) @ ip @ ''.'' @ fp"
    by blast
  show ?thesis
    unfolding s using ip fp is_digit_not_other(1,6)
    by (auto simp: is_space_def newline_def)
qed

section \<open>Invariants of the parser\<close>

lemma parse_loop_invariant:
  assumes "parse_loop ls st = Inr st'" and "P st"
    and ent: "\<And>t ls st st1 ls'. P st \<Longrightarrow> parse_entity t ls st = Inr (st1, ls') \<Longrightarrow> P st1"
    and flag: "\<And>st b. P st \<Longrightarrow> P (st\<lparr>inEntities := b\<rparr>)"
  shows "P st'"
  using assms(1,2)
proof (induction ls st rule: parse_loop.induct)
  case (1 st)
  then show ?case by simp
next
  case (2 c st)
  then show ?case by simp
next
  case (3 c v rest st)
  show ?case
  proof (cases "parseInt c = Some 0 \<and> v = ''SECTION''")
    case sec: True
    show ?thesis
    proof (cases "peek rest = Some (Some 2, Some ''ENTITIES'')")
      case True
      with sec "3.prems" "3.IH"(1) [OF sec True] flag show ?thesis by simp
    next
      case False
      with sec "3.prems" "3.IH"(2) [OF sec False] show ?thesis by simp
    qed
  next
    case nosec: False
    define st1 where "st1 = (if parseInt c = Some 0 \<and> v = ''ENDSEC'' then st\<lparr>inEntities := False\<rparr> else st)"
    have p1: "P st1" using "3.prems"(2) flag by (simp add: st1_def)
    have eq: "parse_loop (c # v # rest) st =
        (if inEntities st1 \<and> parseInt c = Some 0
         then (case parse_entity v rest st1 of
                 Inl err \<Rightarrow> Inl err
               | Inr (st', rest') \<Rightarrow> parse_loop rest' st')
         else parse_loop rest st1)"
      unfolding st1_def by (subst parse_loop.simps) (simp only: nosec if_False Let_def)
    show ?thesis
    proof (cases "inEntities st1 \<and> parseInt c = Some 0")
      case True
      show ?thesis
      proof (cases "parse_entity v rest st1")
        case (Inl err)
        with True eq "3.prems"(1) show ?thesis by simp
      next
        case (Inr r)
        obtain st2 rest' where r: "r = (st2, rest')" by (cases r)
        with Inr have pe: "parse_entity v rest st1 = Inr (st2, rest')" by simp
        with True eq "3.prems"(1) have pl: "parse_loop rest' st2 = Inr st'" by simp
        from ent [OF p1 pe] have "P st2" .
        then show ?thesis by (rule "3.IH"(3) [OF nosec st1_def True pe refl pl])
      qed
    next
      case False
      with eq "3.prems"(1) have "parse_loop rest st1 = Inr st'" by simp
      with "3.IH"(4) [OF nosec st1_def False] p1 show ?thesis by simp
    qed
  qed
qed

lemma read_fields_preserves_aux:
  "(\<forall>e c v. Q e \<longrightarrow> Q (upd e c v)) \<Longrightarrow> Q e \<Longrightarrow> Q (fst (read_fields upd ls e))"
  by (induction upd ls e rule: read_fields.induct) simp_all

lemma read_fields_preserves:
  assumes "\<And>e c v. Q e \<Longrightarrow> Q (upd e c v)" and "Q e"
  shows "Q (fst (read_fields upd ls e))"
  using assms read_fields_preserves_aux [of Q upd e ls] by blast

lemma line_field_coordinate: "\<not> no_coordinate e \<Longrightarrow> \<not> no_coordinate (line_field e c v)"
  by (cases "(e, c, v)" rule: line_field.cases) simp_all

lemma circle_field_coordinate: "\<not> no_coordinate e \<Longrightarrow> \<not> no_coordinate (circle_field e c v)"
  by (cases "(e, c, v)" rule: circle_field.cases) simp_all

lemma text_field_coordinate: "\<not> no_coordinate e \<Longrightarrow> \<not> no_coordinate (text_field e c v)"
  by (cases "(e, c, v)" rule: text_field.cases) simp_all

lemma poly_field_points: "points e = [] \<Longrightarrow> points (poly_field e c v) = []"
  by (cases "(e, c, v)" rule: poly_field.cases) simp_all

lemma read_vertices_points:
  "read_vertices ls pts b = (pts', b', ls') \<Longrightarrow>
     (pts \<noteq> [] \<longrightarrow> pts' \<noteq> []) \<and> (pts' = [] \<longrightarrow> b' = b)"
proof (induction ls pts b rule: read_vertices.induct)
  case (3 c v rest pts b)
  show ?case
  proof (cases "v = ''SEQEND''")
    case True
    with "3.prems" show ?thesis by simp
  next
    case notend: False
    show ?thesis
    proof (cases "v = ''VERTEX''")
      case True
      obtain vx vy rest' where rf: "read_fields vertex_field rest (Fin 0, Fin 0) = ((vx, vy), rest')"
        by (metis surj_pair)
      with notend True "3.prems"
      have rv: "read_vertices rest' (pts @ [(vx, vy)]) (updateBounds b vx vy) = (pts', b', ls')"
        by simp
      from "3.IH"(1) [OF notend True rf [symmetric] refl rv] show ?thesis by simp
    next
      case False
      with notend "3.prems" have "read_vertices rest pts b = (pts', b', ls')" by simp
      from "3.IH"(2) [OF notend False this] show ?thesis .
    qed
  qed
qed simp_all

lemma parse_entity_untouched:
  assumes "untouched st" and "parse_entity t ls st = Inr (st1, ls')"
  shows "untouched st1"
proof -
  have l: "\<not> no_coordinate (fst (read_fields line_field ls (LINE (Some ''0'') (Some 7) (Fin 0, Fin 0) (Fin 0, Fin 0))))"
    by (rule read_fields_preserves [where Q = "\<lambda>e. \<not> no_coordinate e"])
       (simp_all add: line_field_coordinate)
  have c: "\<not> no_coordinate (fst (read_fields circle_field ls (CIRCLE (Some ''0'') (Some 7) (Fin 0, Fin 0) (Fin 0))))"
    by (rule read_fields_preserves [where Q = "\<lambda>e. \<not> no_coordinate e"])
       (simp_all add: circle_field_coordinate)
  have x: "\<not> no_coordinate (fst (read_fields text_field ls (TEXT (Some ''0'') (Some 7) (Fin 0) (Fin 0) (Fin 10) (Some []))))"
    by (rule read_fields_preserves [where Q = "\<lambda>e. \<not> no_coordinate e"])
       (simp_all add: text_field_coordinate)
  have p: "points (fst (read_fields poly_field ls (POLYLINE (Some ''0'') (Some 7) [] False))) = []"
    by (rule read_fields_preserves [where Q = "\<lambda>e. points e = []"])
       (simp_all add: poly_field_points)
  consider "t = ''LINE''" | "t = ''CIRCLE''" | "t = ''TEXT''" | "t = ''POLYLINE''"
    | "t \<noteq> ''LINE''" "t \<noteq> ''CIRCLE''" "t \<noteq> ''TEXT''" "t \<noteq> ''POLYLINE''" by blast
  then show ?thesis
  proof cases
    case 1
    with assms(2) l show ?thesis
      by (auto simp: parse_entity_def untouched_def Let_def split: prod.splits)
  next
    case 2
    with assms(2) c show ?thesis
      by (auto simp: parse_entity_def untouched_def Let_def split: prod.splits)
  next
    case 3
    with assms(2) x show ?thesis
      by (auto simp: parse_entity_def untouched_def Let_def split: prod.splits option.splits)
  next
    case 4
    obtain poly ls1 where rf: "read_fields poly_field ls (POLYLINE (Some ''0'') (Some 7) [] False) = (poly, ls1)"
      by (metis surj_pair)
    obtain pts b ls2 where rv: "read_vertices ls1 (points poly) (bounds st) = (pts, b, ls2)"
      by (metis surj_pair)
    from p rf have "points poly = []" by simp
    with read_vertices_points [OF rv] have "pts = [] \<longrightarrow> b = bounds st" by simp
    moreover from 4 assms(2) rf rv
    have "st1 = st\<lparr>entities := entities st @ [POLYLINE (layer poly) (color poly) pts (isClosed poly)],
                   bounds := b\<rparr>"
      by (simp add: parse_entity_def)
    ultimately show ?thesis using assms(1) by (auto simp: untouched_def)
  next
    case 5
    with assms show ?thesis by (simp add: parse_entity_def)
  qed
qed

lemma parse_loop_untouched:
  assumes "parse_loop ls init_state = Inr st"
  shows "untouched st"
proof (rule parse_loop_invariant [OF assms, where P = untouched])
  show "untouched init_state" by (simp add: untouched_def)
next
  fix t ls st st1 ls'
  assume "untouched st" "parse_entity t ls st = Inr (st1, ls')"
  then show "untouched st1" by (rule parse_entity_untouched)
next
  fix st b assume "untouched st"
  then show "untouched (st\<lparr>inEntities := b\<rparr>)" by (simp add: untouched_def)
qed

lemma parseDxf_fallback:
  assumes "parseDxf s = Inr (es, b)" and "\<forall>e \<in> set es. no_coordinate e"
  shows "b = \<lparr>minX = Fin 0, minY = Fin 0, maxX = Fin 100, maxY = Fin 100\<rparr>"
proof -
  from assms(1) obtain st where pl: "parse_loop (map trim (split_lines s)) init_state = Inr st"
    and es: "es = entities st"
    and b: "b = (if minX (bounds st) = PosInf
                 then \<lparr>minX = Fin 0, minY = Fin 0, maxX = Fin 100, maxY = Fin 100\<rparr> else bounds st)"
    by (auto simp: parseDxf_def Let_def split: sum.splits)
  from parse_loop_untouched [OF pl] assms(2) es have "bounds st = bounds init_state"
    by (simp add: untouched_def)
  then show ?thesis using b by (simp add: init_state_def)
qed

section \<open>Joining and splitting lines\<close>

lemma split_lines_single: "newline \<notin> set l \<Longrightarrow> split_lines l = [l]"
  by (induction l) auto

lemma split_lines_cons: "newline \<notin> set l \<Longrightarrow> split_lines (l @ newline # s) = l # split_lines s"
  by (induction l) auto

lemma split_join:
  "ls \<noteq> [] \<Longrightarrow> \<forall>l \<in> set ls. newline \<notin> set l \<Longrightarrow> split_lines (join_lines ls) = ls"
proof (induction ls rule: join_lines.induct)
  case 1
  then show ?case by simp
next
  case (2 l)
  then show ?case by (simp add: split_lines_single)
next
  case (3 l m ls)
  then show ?case by (simp add: split_lines_cons)
qed

lemma trim_no_space: "\<forall>c \<in> set s. \<not> is_space c \<Longrightarrow> trim s = s"
proof -
  assume a: "\<forall>c \<in> set s. \<not> is_space c"
  then have "dropWhile is_space s = s" by (cases s) simp_all
  moreover from a have "dropWhile is_space (rev s) = rev s" by (cases "rev s") simp_all
  ultimately show ?thesis by (simp add: trim_def)
qed

lemma trim_header_lines: "map trim header_lines = header_lines"
  by (simp add: header_lines_def trim_def is_space_def)

lemma header_lines_plain: "\<forall>l \<in> set header_lines. newline \<notin> set l"
  by (simp add: header_lines_def newline_def)

section \<open>The parser on the writer's header and closing lines\<close>

lemma parse_loop_header:
  "parse_loop (header_lines @ rest) init_state = parse_loop rest (init_state\<lparr>inEntities := True\<rparr>)"
  by (simp add: header_lines_def parseInt_codes init_state_def Let_def)

lemma parse_loop_closing:
  "parse_loop [''0'', ''ENDSEC'', ''0'', ''EOF''] st = Inr (st\<lparr>inEntities := False\<rparr>)"
  by (simp add: parseInt_codes Let_def parse_entity_def)

lemma parseDxf_join:
  assumes "ls \<noteq> []" and "\<forall>l \<in> set ls. newline \<notin> set l"
  shows "parseDxf (join_lines ls) =
     (case parse_loop (map trim ls) init_state of
        Inl err \<Rightarrow> Inl err
      | Inr st \<Rightarrow>
          Inr (entities st,
               if minX (bounds st) = PosInf
               then \<lparr>minX = Fin 0, minY = Fin 0, maxX = Fin 100, maxY = Fin 100\<rparr>
               else bounds st))"
  by (simp add: parseDxf_def split_join [OF assms])

lemma parseDxf_empty_document:
  "parseDxf (fst (toString new_writer)) =
     Inr ([], \<lparr>minX = Fin 0, minY = Fin 0, maxX = Fin 100, maxY = Fin 100\<rparr>)"
proof -
  let ?ls = "header_lines @ [''0'', ''ENDSEC'', ''0'', ''EOF'']"
  have t: "fst (toString new_writer) = join_lines ?ls"
    by (simp add: toString_def new_writer_def header_def Let_def)
  have p: "\<forall>l \<in> set ?ls. newline \<notin> set l"
    using header_lines_plain by (simp add: newline_def)
  have "map trim ?ls = ?ls"
    by (simp add: trim_header_lines) (simp add: trim_def is_space_def)
  then have "parse_loop (map trim ?ls) init_state = Inr (init_state\<lparr>inEntities := False\<rparr>)"
    by (simp only: parse_loop_header parse_loop_closing) simp
  then show ?thesis
    unfolding t by (subst parseDxf_join [OF _ p]) (simp_all add: init_state_def)
qed

section \<open>Writing entities and parsing them back\<close>

lemma frac_digits_chars:
  "0 \<le> r \<Longrightarrow> r < 1 \<Longrightarrow> \<forall>c \<in> set (frac_digits k r). is_digit c"
proof (induction k arbitrary: r)
  case 0
  then show ?case by simp
next
  case (Suc k)
  define d where "d = nat \<lfloor>10 * r\<rfloor>"
  have "0 \<le> 10 * r" "10 * r < 10" using Suc.prems by simp_all
  then have f: "0 \<le> \<lfloor>10 * r\<rfloor>" "\<lfloor>10 * r\<rfloor> < 10" by linarith+
  then have d10: "d < 10" unfolding d_def by linarith
  have rd: "real d = of_int \<lfloor>10 * r\<rfloor>" unfolding d_def using f(1) by (rule of_nat_nat)
  have "0 \<le> 10 * r - real d" "10 * r - real d < 1" unfolding rd by linarith+
  then have "\<forall>c \<in> set (frac_digits k (10 * r - real d)). is_digit c" by (rule Suc.IH)
  then show ?case using d10 by (simp add: Let_def d_def [symmetric] digit_char_props)
qed

lemma num_toString_chars: "\<forall>c \<in> set (num_toString x). c \<noteq> newline"
proof -
  have "0 \<le> \<bar>x\<bar> - real (nat \<lfloor>\<bar>x\<bar>\<rfloor>)" "\<bar>x\<bar> - real (nat \<lfloor>\<bar>x\<bar>\<rfloor>) < 1"
    by (simp_all add: of_nat_nat) linarith+
  then have fd: "\<forall>c \<in> set (frac_digits 17 (\<bar>x\<bar> - real (nat \<lfloor>\<bar>x\<bar>\<rfloor>))). is_digit c"
    by (rule frac_digits_chars)
  have "c \<noteq> newline" if "c \<in> set (num_toString x)" for c
  proof -
    from that have "c = CHR ''-'' \<or> c = CHR ''.'' \<or> c \<in> set (nat_digits (nat \<lfloor>\<bar>x\<bar>\<rfloor>))
        \<or> c \<in> set (frac_digits 17 (\<bar>x\<bar> - real (nat \<lfloor>\<bar>x\<bar>\<rfloor>)))"
      by (auto simp: num_toString_def Let_def split: if_splits)
    then show ?thesis
      using fd nat_digits_all_digits is_digit_not_other(6) by (auto simp: newline_def)
  qed
  then show ?thesis by blast
qed

lemma toFixed3_plain: "newline \<notin> set (toFixed 3 x)" "trim (toFixed 3 x) = toFixed 3 x"
  using toFixed3_chars [of x] by (auto intro: trim_no_space)

lemma num_toString_plain: "newline \<notin> set (num_toString x)"
  using num_toString_chars [of x] by auto

lemma close_round3: "close_to x (Fin (round3 x))"
  using round3_near [of x] by simp

lemma close_parse: "close_to x (parseFloat (toFixed 3 x))"
  by (simp only: parseFloat_toFixed3 close_round3)

lemma apply_call_content: "content (apply_call w c) = content w @ call_lines c"
  by (cases c) (simp_all add: call_lines_def addLine_def addPolyline_def addCircle_def addText_def)

lemma foldl_apply_call_content:
  "content (foldl apply_call w cs) = content w @ concat (map call_lines cs)"
  by (induction cs arbitrary: w) (simp_all add: apply_call_content)

lemma render_calls_eq:
  "render_calls cs =
     join_lines (header_lines @ concat (map call_lines cs) @ [''0'', ''ENDSEC'', ''0'', ''EOF''])"
  by (simp add: render_calls_def toString_def Let_def foldl_apply_call_content new_writer_def header_def)

lemma vertex_lines_plain:
  "newline \<notin> set lay \<Longrightarrow> \<forall>l \<in> set (concat (map (vertex_lines lay) pts)). newline \<notin> set l"
  using toFixed3_plain(1) unfolding newline_def
  by (induction pts) (auto simp: vertex_lines_def)

lemma call_lines_plain:
  assumes "\<forall>s \<in> set (call_strings c). newline \<notin> set s"
  shows "\<forall>l \<in> set (call_lines c). newline \<notin> set l"
proof (cases c)
  case (AddLine x1 y1 x2 y2 lay col)
  with assms show ?thesis
    using toFixed3_plain(1) num_toString_plain unfolding newline_def
    by (auto simp: call_lines_def addLine_def)
next
  case (AddPolyline pts lay col cl)
  with assms have "\<forall>l \<in> set (concat (map (vertex_lines lay) pts)). newline \<notin> set l"
    by (simp add: vertex_lines_plain)
  with AddPolyline assms show ?thesis
    using num_toString_plain unfolding newline_def
    by (auto simp: call_lines_def addPolyline_def)
next
  case (AddCircle cx cy r lay col)
  with assms show ?thesis
    using toFixed3_plain(1) num_toString_plain unfolding newline_def
    by (auto simp: call_lines_def addCircle_def)
next
  case (AddText t x y h lay rotation)
  with assms show ?thesis
    using toFixed3_plain(1) num_toString_plain unfolding newline_def
    by (auto simp: call_lines_def addText_def)
qed

lemma trim_codes:
  "trim ''0'' = ''0''" "trim ''1'' = ''1''" "trim ''8'' = ''8''" "trim ''10'' = ''10''"
  "trim ''11'' = ''11''" "trim ''20'' = ''20''" "trim ''21'' = ''21''" "trim ''30'' = ''30''"
  "trim ''31'' = ''31''" "trim ''40'' = ''40''" "trim ''50'' = ''50''" "trim ''62'' = ''62''"
  "trim ''66'' = ''66''" "trim ''70'' = ''70''" "trim ''0.0'' = ''0.0''"
  "trim ''LINE'' = ''LINE''" "trim ''CIRCLE'' = ''CIRCLE''" "trim ''TEXT'' = ''TEXT''"
  "trim ''POLYLINE'' = ''POLYLINE''" "trim ''VERTEX'' = ''VERTEX''" "trim ''SEQEND'' = ''SEQEND''"
  by (simp_all add: trim_def is_space_def)

lemma read_line_fields:
  "read_fields line_field
     ([''8'', l, ''62'', c, ''10'', a, ''20'', b, ''30'', z, ''11'', a2, ''21'', b2, ''31'', z2] @
      ''0'' # v # r) (LINE l0 c0 (ax, ay) (bx, by)) =
   (LINE (Some l) (parseInt c) (parseFloat a, parseFloat b) (parseFloat a2, parseFloat b2),
    ''0'' # v # r)"
  by (simp add: parseInt_codes parseInt_opt_def parseFloat_opt_def)

lemma read_circle_fields:
  "read_fields circle_field
     ([''8'', l, ''62'', c, ''10'', a, ''20'', b, ''30'', z, ''40'', rr] @ ''0'' # v # r)
     (CIRCLE l0 c0 (ax, ay) r0) =
   (CIRCLE (Some l) (parseInt c) (parseFloat a, parseFloat b) (parseFloat rr), ''0'' # v # r)"
  by (simp add: parseInt_codes parseInt_opt_def parseFloat_opt_def)

lemma read_text_fields:
  "read_fields text_field
     ([''8'', l, ''10'', a, ''20'', b, ''30'', z, ''40'', h, ''50'', rot, ''1'', t] @ ''0'' # v # r)
     (TEXT l0 c0 x0 y0 h0 t0) =
   (TEXT (Some l) c0 (parseFloat a) (parseFloat b) (parseFloat h) (Some t), ''0'' # v # r)"
  by (simp add: parseInt_codes parseInt_opt_def parseFloat_opt_def)

lemma read_poly_fields:
  "\<exists>cl'. read_fields poly_field
     ([''8'', l, ''62'', c, ''66'', f, ''10'', a, ''20'', b, ''30'', z, ''70'', cl] @ ''0'' # v # r)
     (POLYLINE l0 c0 [] False) =
   (POLYLINE (Some l) (parseInt c) [] cl', ''0'' # v # r)"
  by (simp add: parseInt_codes parseInt_opt_def parseFloat_opt_def)

lemma read_vertex_fields:
  "read_fields vertex_field ([''8'', l, ''10'', a, ''20'', b, ''30'', z] @ ''0'' # v # r) (x0, y0) =
   ((parseFloat a, parseFloat b), ''0'' # v # r)"
  by (simp add: parseInt_codes vertex_field_def parseFloat_opt_def)

lemma trim_vertex_lines: "map trim (vertex_lines lay p) = trimmed_vertex (trim lay) p"
  by (simp add: vertex_lines_def trimmed_vertex_def trim_codes toFixed3_plain)

lemma trim_concat_vertex_lines:
  "map trim (concat (map (vertex_lines lay) pts)) = concat (map (trimmed_vertex (trim lay)) pts)"
  by (induction pts) (simp_all add: trim_vertex_lines)

lemma vertices_then_seqend:
  "\<exists>v r. concat (map (trimmed_vertex l) pts) @ ''0'' # ''SEQEND'' # rest = ''0'' # v # r"
  by (cases pts) (simp_all add: trimmed_vertex_def)

lemma read_vertices_written:
  "\<exists>b'. read_vertices (concat (map (trimmed_vertex l) pts) @ ''0'' # ''SEQEND'' # rest) acc b =
     (acc @ map (\<lambda>p. (parseFloat (toFixed 3 (fst p)), parseFloat (toFixed 3 (snd p)))) pts, b', rest)"
proof (induction pts arbitrary: acc b)
  case Nil
  then show ?case by simp
next
  case (Cons p pts)
  from vertices_then_seqend [of l pts rest] obtain v r where
    nx: "concat (map (trimmed_vertex l) pts) @ ''0'' # ''SEQEND'' # rest = ''0'' # v # r" by blast
  have rf: "read_fields vertex_field
      ([''8'', l, ''10'', toFixed 3 (fst p), ''20'', toFixed 3 (snd p), ''30'', ''0.0''] @ ''0'' # v # r)
      (Fin 0, Fin 0) =
      ((parseFloat (toFixed 3 (fst p)), parseFloat (toFixed 3 (snd p))), ''0'' # v # r)"
    by (rule read_vertex_fields)
  let ?q = "(parseFloat (toFixed 3 (fst p)), parseFloat (toFixed 3 (snd p)))"
  from Cons.IH [of "acc @ [?q]" "updateBounds b (fst ?q) (snd ?q)"] obtain b' where
    ih: "read_vertices (concat (map (trimmed_vertex l) pts) @ ''0'' # ''SEQEND'' # rest)
           (acc @ [?q]) (updateBounds b (fst ?q) (snd ?q)) =
         ((acc @ [?q]) @ map (\<lambda>p. (parseFloat (toFixed 3 (fst p)), parseFloat (toFixed 3 (snd p)))) pts,
          b', rest)" by blast
  have "read_vertices (concat (map (trimmed_vertex l) (p # pts)) @ ''0'' # ''SEQEND'' # rest) acc b =
      read_vertices (''0'' # ''VERTEX'' #
        [''8'', l, ''10'', toFixed 3 (fst p), ''20'', toFixed 3 (snd p), ''30'', ''0.0''] @ ''0'' # v # r) acc b"
    by (simp add: trimmed_vertex_def nx [symmetric])
  also have "\<dots> = read_vertices (''0'' # v # r) (acc @ [?q]) (updateBounds b (fst ?q) (snd ?q))"
    by (subst read_vertices.simps) (simp only: rf, simp)
  finally show ?case using ih nx by auto
qed

lemma parse_loop_record:
  assumes "inEntities st" and "t \<noteq> ''SECTION''" and "t \<noteq> ''ENDSEC''"
  shows "parse_loop (''0'' # t # ls) st =
     (case parse_entity t ls st of Inl err \<Rightarrow> Inl err | Inr (st', rest') \<Rightarrow> parse_loop rest' st')"
  using assms by (simp add: parseInt_codes Let_def)

lemma parse_written_line:
  "\<exists>e b. parse_entity ''LINE''
       ([''8'', l, ''62'', c, ''10'', toFixed 3 x1, ''20'', toFixed 3 y1, ''30'', z,
         ''11'', toFixed 3 x2, ''21'', toFixed 3 y2, ''31'', z2] @ ''0'' # v # r) st =
     Inr (st\<lparr>entities := entities st @ [e], bounds := b\<rparr>, ''0'' # v # r) \<and>
     matches (AddLine x1 y1 x2 y2 lay col) e"
proof -
  let ?e = "LINE (Some l) (parseInt c) (parseFloat (toFixed 3 x1), parseFloat (toFixed 3 y1))
              (parseFloat (toFixed 3 x2), parseFloat (toFixed 3 y2))"
  let ?b = "updateBounds (updateBounds (bounds st) (parseFloat (toFixed 3 x1)) (parseFloat (toFixed 3 y1)))
              (parseFloat (toFixed 3 x2)) (parseFloat (toFixed 3 y2))"
  have "parse_entity ''LINE''
       ([''8'', l, ''62'', c, ''10'', toFixed 3 x1, ''20'', toFixed 3 y1, ''30'', z,
         ''11'', toFixed 3 x2, ''21'', toFixed 3 y2, ''31'', z2] @ ''0'' # v # r) st =
     Inr (st\<lparr>entities := entities st @ [?e], bounds := ?b\<rparr>, ''0'' # v # r)"
    unfolding parse_entity_def
    by (simp only: read_line_fields) simp
  moreover have "matches (AddLine x1 y1 x2 y2 lay col) ?e" by (simp add: close_parse)
  ultimately show ?thesis by blast
qed

lemma parse_written_circle:
  "\<exists>e b. parse_entity ''CIRCLE''
       ([''8'', l, ''62'', c, ''10'', toFixed 3 cx, ''20'', toFixed 3 cy, ''30'', z,
         ''40'', toFixed 3 rad] @ ''0'' # v # r) st =
     Inr (st\<lparr>entities := entities st @ [e], bounds := b\<rparr>, ''0'' # v # r) \<and>
     matches (AddCircle cx cy rad lay col) e"
proof -
  let ?e = "CIRCLE (Some l) (parseInt c) (parseFloat (toFixed 3 cx), parseFloat (toFixed 3 cy))
              (parseFloat (toFixed 3 rad))"
  let ?b = "updateBounds
              (updateBounds (bounds st)
                 (num_sub (parseFloat (toFixed 3 cx)) (parseFloat (toFixed 3 rad)))
                 (num_sub (parseFloat (toFixed 3 cy)) (parseFloat (toFixed 3 rad))))
              (num_add (parseFloat (toFixed 3 cx)) (parseFloat (toFixed 3 rad)))
              (num_add (parseFloat (toFixed 3 cy)) (parseFloat (toFixed 3 rad)))"
  have "parse_entity ''CIRCLE''
       ([''8'', l, ''62'', c, ''10'', toFixed 3 cx, ''20'', toFixed 3 cy, ''30'', z,
         ''40'', toFixed 3 rad] @ ''0'' # v # r) st =
     Inr (st\<lparr>entities := entities st @ [?e], bounds := ?b\<rparr>, ''0'' # v # r)"
    unfolding parse_entity_def
    by (simp only: read_circle_fields) simp
  moreover have "matches (AddCircle cx cy rad lay col) ?e" by (simp add: close_parse)
  ultimately show ?thesis by blast
qed

lemma parse_written_text:
  "\<exists>e b. parse_entity ''TEXT''
       ([''8'', l, ''10'', toFixed 3 x, ''20'', toFixed 3 y, ''30'', z, ''40'', h, ''50'', rot,
         ''1'', t] @ ''0'' # v # r) st =
     Inr (st\<lparr>entities := entities st @ [e], bounds := b\<rparr>, ''0'' # v # r) \<and>
     matches (AddText str x y ht lay rotation) e"
proof -
  let ?e = "TEXT (Some l) (Some 7) (parseFloat (toFixed 3 x)) (parseFloat (toFixed 3 y))
              (parseFloat h) (Some t)"
  let ?b = "updateBounds
              (updateBounds (bounds st) (parseFloat (toFixed 3 x)) (parseFloat (toFixed 3 y)))
              (num_add (parseFloat (toFixed 3 x))
                 (num_mul (num_mul (Fin (real (length t))) (parseFloat h)) (Fin 0.6)))
              (num_add (parseFloat (toFixed 3 y)) (parseFloat h))"
  have "parse_entity ''TEXT''
       ([''8'', l, ''10'', toFixed 3 x, ''20'', toFixed 3 y, ''30'', z, ''40'', h, ''50'', rot,
         ''1'', t] @ ''0'' # v # r) st =
     Inr (st\<lparr>entities := entities st @ [?e], bounds := ?b\<rparr>, ''0'' # v # r)"
    unfolding parse_entity_def
    by (simp only: read_text_fields) simp
  moreover have "matches (AddText str x y ht lay rotation) ?e" by (simp add: close_parse)
  ultimately show ?thesis by blast
qed

lemma close_vertices:
  "list_all2 (\<lambda>p q. close_to (fst p) (fst q) \<and> close_to (snd p) (snd q)) pts
     (map (\<lambda>p. (parseFloat (toFixed 3 (fst p)), parseFloat (toFixed 3 (snd p)))) pts)"
  by (induction pts) (simp_all add: close_parse)

lemma parse_written_polyline:
  "\<exists>e b. parse_entity ''POLYLINE''
       ([''8'', l, ''62'', c, ''66'', f, ''10'', a, ''20'', b0, ''30'', z, ''70'', cl] @
        concat (map (trimmed_vertex l) pts) @ ''0'' # ''SEQEND'' # rest) st =
     Inr (st\<lparr>entities := entities st @ [e], bounds := b\<rparr>, rest) \<and>
     matches (AddPolyline pts lay col isCl) e"
proof -
  from vertices_then_seqend [of l pts rest] obtain v r where
    nx: "concat (map (trimmed_vertex l) pts) @ ''0'' # ''SEQEND'' # rest = ''0'' # v # r" by blast
  from read_poly_fields [of l c f a b0 z cl v r "Some ''0''" "Some 7"] obtain cl' where
    rf: "read_fields poly_field
      ([''8'', l, ''62'', c, ''66'', f, ''10'', a, ''20'', b0, ''30'', z, ''70'', cl] @ ''0'' # v # r)
      (POLYLINE (Some ''0'') (Some 7) [] False) =
      (POLYLINE (Some l) (parseInt c) [] cl', ''0'' # v # r)" by blast
  from read_vertices_written [of l pts rest "[]" "bounds st"] obtain b' where
    rv: "read_vertices (''0'' # v # r) [] (bounds st) =
      (map (\<lambda>p. (parseFloat (toFixed 3 (fst p)), parseFloat (toFixed 3 (snd p)))) pts, b', rest)"
    unfolding nx by auto
  have "parse_entity ''POLYLINE''
       ([''8'', l, ''62'', c, ''66'', f, ''10'', a, ''20'', b0, ''30'', z, ''70'', cl] @ ''0'' # v # r) st =
     Inr (st\<lparr>entities := entities st @
            [POLYLINE (Some l) (parseInt c)
               (map (\<lambda>p. (parseFloat (toFixed 3 (fst p)), parseFloat (toFixed 3 (snd p)))) pts) cl'],
            bounds := b'\<rparr>, rest)"
    unfolding parse_entity_def
    by (simp only: rf prod.case DxfEntity.sel rv) simp
  then show ?thesis
    unfolding nx using close_vertices [of pts] by (intro exI conjI) (assumption, simp)
qed

lemma trimmed_call_lines:
  "map trim (call_lines (AddLine x1 y1 x2 y2 lay col)) =
     ''0'' # ''LINE'' #
     [''8'', trim lay, ''62'', trim (num_toString col), ''10'', toFixed 3 x1, ''20'', toFixed 3 y1,
      ''30'', ''0.0'', ''11'', toFixed 3 x2, ''21'', toFixed 3 y2, ''31'', ''0.0'']"
  "map trim (call_lines (AddCircle cx cy rad lay col)) =
     ''0'' # ''CIRCLE'' #
     [''8'', trim lay, ''62'', trim (num_toString col), ''10'', toFixed 3 cx, ''20'', toFixed 3 cy,
      ''30'', ''0.0'', ''40'', toFixed 3 rad]"
  "map trim (call_lines (AddText str x y ht lay rotation)) =
     ''0'' # ''TEXT'' #
     [''8'', trim lay, ''10'', toFixed 3 x, ''20'', toFixed 3 y, ''30'', ''0.0'',
      ''40'', trim (num_toString ht), ''50'', trim (num_toString rotation), ''1'', trim str]"
  "map trim (call_lines (AddPolyline pts lay col isCl)) =
     ''0'' # ''POLYLINE'' #
     [''8'', trim lay, ''62'', trim (num_toString col), ''66'', ''1'', ''10'', ''0.0'', ''20'', ''0.0'',
      ''30'', ''0.0'', ''70'', trim (if isCl then ''1'' else ''0'')] @
     concat (map (trimmed_vertex (trim lay)) pts) @ [''0'', ''SEQEND'']"
  by (simp_all add: call_lines_def addLine_def addCircle_def addText_def addPolyline_def
      trim_codes toFixed3_plain trim_concat_vertex_lines)

lemma parse_call:
  assumes "inEntities st"
  shows "\<exists>e b. parse_loop (map trim (call_lines c) @ ''0'' # v # r) st =
           parse_loop (''0'' # v # r) (st\<lparr>entities := entities st @ [e], bounds := b\<rparr>) \<and>
         matches c e"
proof (cases c)
  case (AddLine x1 y1 x2 y2 lay col)
  from parse_written_line [of "trim lay" "trim (num_toString col)" x1 y1 "''0.0''" x2 y2 "''0.0''" v r st lay col]
  obtain e b where
    "parse_entity ''LINE''
       ([''8'', trim lay, ''62'', trim (num_toString col), ''10'', toFixed 3 x1, ''20'', toFixed 3 y1,
         ''30'', ''0.0'', ''11'', toFixed 3 x2, ''21'', toFixed 3 y2, ''31'', ''0.0''] @ ''0'' # v # r) st =
     Inr (st\<lparr>entities := entities st @ [e], bounds := b\<rparr>, ''0'' # v # r)"
    and "matches (AddLine x1 y1 x2 y2 lay col) e" by blast
  then show ?thesis
    unfolding AddLine trimmed_call_lines
    by (intro exI [of _ e] exI [of _ b]) (simp add: parse_loop_record [OF assms] del: parse_loop.simps)
next
  case (AddCircle cx cy rad lay col)
  from parse_written_circle [of "trim lay" "trim (num_toString col)" cx cy "''0.0''" rad v r st lay col]
  obtain e b where
    "parse_entity ''CIRCLE''
       ([''8'', trim lay, ''62'', trim (num_toString col), ''10'', toFixed 3 cx, ''20'', toFixed 3 cy,
         ''30'', ''0.0'', ''40'', toFixed 3 rad] @ ''0'' # v # r) st =
     Inr (st\<lparr>entities := entities st @ [e], bounds := b\<rparr>, ''0'' # v # r)"
    and "matches (AddCircle cx cy rad lay col) e" by blast
  then show ?thesis
    unfolding AddCircle trimmed_call_lines
    by (intro exI [of _ e] exI [of _ b]) (simp add: parse_loop_record [OF assms] del: parse_loop.simps)
next
  case (AddText str x y ht lay rotation)
  from parse_written_text [of "trim lay" x y "''0.0''" "trim (num_toString ht)"
      "trim (num_toString rotation)" "trim str" v r st str ht lay rotation]
  obtain e b where
    "parse_entity ''TEXT''
       ([''8'', trim lay, ''10'', toFixed 3 x, ''20'', toFixed 3 y, ''30'', ''0.0'',
         ''40'', trim (num_toString ht), ''50'', trim (num_toString rotation), ''1'', trim str] @
        ''0'' # v # r) st =
     Inr (st\<lparr>entities := entities st @ [e], bounds := b\<rparr>, ''0'' # v # r)"
    and "matches (AddText str x y ht lay rotation) e" by blast
  then show ?thesis
    unfolding AddText trimmed_call_lines
    by (intro exI [of _ e] exI [of _ b]) (simp add: parse_loop_record [OF assms] del: parse_loop.simps)
next
  case (AddPolyline pts lay col isCl)
  from parse_written_polyline [of "trim lay" "trim (num_toString col)" "''1''" "''0.0''" "''0.0''" "''0.0''"
      "trim (if isCl then ''1'' else ''0'')" pts "''0'' # v # r" st lay col isCl]
  obtain e b where
    "parse_entity ''POLYLINE''
       ([''8'', trim lay, ''62'', trim (num_toString col), ''66'', ''1'', ''10'', ''0.0'', ''20'', ''0.0'',
         ''30'', ''0.0'', ''70'', trim (if isCl then ''1'' else ''0'')] @
        concat (map (trimmed_vertex (trim lay)) pts) @ ''0'' # ''SEQEND'' # ''0'' # v # r) st =
     Inr (st\<lparr>entities := entities st @ [e], bounds := b\<rparr>, ''0'' # v # r)"
    and "matches (AddPolyline pts lay col isCl) e" by blast
  then show ?thesis
    unfolding AddPolyline trimmed_call_lines
    by (intro exI [of _ e] exI [of _ b]) (simp add: parse_loop_record [OF assms] del: parse_loop.simps)
qed

lemma call_lines_start: "\<exists>t r. map trim (call_lines c) = ''0'' # t # r"
  by (cases c) (simp_all only: trimmed_call_lines, simp_all)

lemma calls_then_closing:
  "\<exists>v r. map trim (concat (map call_lines cs)) @ [''0'', ''ENDSEC'', ''0'', ''EOF''] = ''0'' # v # r"
proof (cases cs)
  case Nil
  then show ?thesis by simp
next
  case (Cons c cs')
  show ?thesis using call_lines_start [of c] unfolding Cons by auto
qed

lemma parse_calls:
  assumes "inEntities st"
  shows "\<exists>es b. parse_loop (map trim (concat (map call_lines cs)) @ [''0'', ''ENDSEC'', ''0'', ''EOF'']) st =
            Inr (st\<lparr>entities := entities st @ es, bounds := b, inEntities := False\<rparr>) \<and>
          list_all2 matches cs es"
  using assms
proof (induction cs arbitrary: st)
  case Nil
  have "parse_loop [''0'', ''ENDSEC'', ''0'', ''EOF''] st =
      Inr (st\<lparr>entities := entities st @ [], bounds := bounds st, inEntities := False\<rparr>)"
    by (simp only: parse_loop_closing) simp
  then show ?case by (intro exI [of _ "[]"] exI [of _ "bounds st"]) simp
next
  case (Cons c cs)
  from calls_then_closing [of cs] obtain v r where
    nx: "map trim (concat (map call_lines cs)) @ [''0'', ''ENDSEC'', ''0'', ''EOF''] = ''0'' # v # r"
    by blast
  from parse_call [OF Cons.prems, of c v r] obtain e b where
    pc: "parse_loop (map trim (call_lines c) @ ''0'' # v # r) st =
           parse_loop (''0'' # v # r) (st\<lparr>entities := entities st @ [e], bounds := b\<rparr>)"
    and m: "matches c e" by blast
  let ?st = "st\<lparr>entities := entities st @ [e], bounds := b\<rparr>"
  have "inEntities ?st" using Cons.prems by simp
  from Cons.IH [OF this] obtain es b' where
    ih: "parse_loop (map trim (concat (map call_lines cs)) @ [''0'', ''ENDSEC'', ''0'', ''EOF'']) ?st =
           Inr (?st\<lparr>entities := entities ?st @ es, bounds := b', inEntities := False\<rparr>)"
    and ms: "list_all2 matches cs es" by blast
  have "parse_loop (map trim (concat (map call_lines (c # cs))) @ [''0'', ''ENDSEC'', ''0'', ''EOF'']) st =
      parse_loop (map trim (call_lines c) @ ''0'' # v # r) st"
    by (simp add: nx [symmetric])
  also have "\<dots> = parse_loop (''0'' # v # r) ?st" by (rule pc)
  also have "\<dots> = Inr (?st\<lparr>entities := entities ?st @ es, bounds := b', inEntities := False\<rparr>)"
    unfolding nx [symmetric] by (rule ih)
  also have "?st\<lparr>entities := entities ?st @ es, bounds := b', inEntities := False\<rparr> =
      st\<lparr>entities := entities st @ (e # es), bounds := b', inEntities := False\<rparr>"
    by simp
  finally show ?case using m ms by (intro exI [of _ "e # es"] exI [of _ b']) simp
qed

lemma parseDxf_render_calls:
  assumes "\<forall>c \<in> set cs. \<forall>s \<in> set (call_strings c). newline \<notin> set s"
  shows "\<exists>es b. parseDxf (render_calls cs) = Inr (es, b) \<and> list_all2 matches cs es"
proof -
  let ?ls = "header_lines @ concat (map call_lines cs) @ [''0'', ''ENDSEC'', ''0'', ''EOF'']"
  have ne: "?ls \<noteq> []" by simp
  have "\<forall>l \<in> set (concat (map call_lines cs)). newline \<notin> set l"
    using assms call_lines_plain by auto
  moreover have "\<forall>l \<in> set [''0'', ''ENDSEC'', ''0'', ''EOF'']. newline \<notin> set l"
    by (simp add: newline_def)
  ultimately have pl: "\<forall>l \<in> set ?ls. newline \<notin> set l"
    using header_lines_plain by auto
  have tr: "map trim ?ls =
      header_lines @ (map trim (concat (map call_lines cs)) @ [''0'', ''ENDSEC'', ''0'', ''EOF''])"
    by (simp add: trim_header_lines trim_def is_space_def)
  have ie: "inEntities (init_state\<lparr>inEntities := True\<rparr>)" by simp
  from parse_calls [OF ie, of cs] obtain es b where
    p: "parse_loop (map trim (concat (map call_lines cs)) @ [''0'', ''ENDSEC'', ''0'', ''EOF''])
          (init_state\<lparr>inEntities := True\<rparr>) =
        Inr (init_state\<lparr>inEntities := True, entities := entities (init_state\<lparr>inEntities := True\<rparr>) @ es,
                bounds := b, inEntities := False\<rparr>)"
    and m: "list_all2 matches cs es" by blast
  have "parse_loop (map trim ?ls) init_state =
      Inr (init_state\<lparr>inEntities := True, entities := entities (init_state\<lparr>inEntities := True\<rparr>) @ es,
                bounds := b, inEntities := False\<rparr>)"
    unfolding tr parse_loop_header by (rule p)
  then have "\<exists>b'. parseDxf (render_calls cs) = Inr (es, b')"
    unfolding render_calls_eq parseDxf_join [OF ne pl] by (simp add: init_state_def)
  with m show ?thesis by blast
qed

lemma join_lines_inner_newline:
  "join_lines (xs @ (a @ newline # b) # ys) = join_lines (xs @ a # b # ys)"
proof (induction xs rule: join_lines.induct)
  case 1
  show ?case by (cases ys) simp_all
next
  case (2 l)
  show ?case by (cases ys) simp_all
next
  case (3 l m ls)
  then show ?case by simp
qed

lemma toFixed_3_0: "toFixed 3 0 = ''0.000''"
  by (simp add: toFixed_def Let_def) (simp add: nat_digits.simps digit_char_def eval_nat_numeral)

lemma num_toString_small: "num_toString 0 = ''0''" "num_toString 10 = ''10''" "num_toString 7 = ''7''"
  by (simp_all add: num_toString_def Let_def) (simp_all add: nat_digits.simps digit_char_def)

lemmas parseFloat_eval =
  parseFloat_def parse_unsigned_def Let_def is_space_def is_digit_def digits_val_def digit_val_def
  index_of_def

lemma parseFloat_small: "parseFloat ''0.000'' = Fin 0" "parseFloat ''10'' = Fin 10"
  by (simp_all add: parseFloat_eval)

lemma render_text_with_newlines:
  "parseDxf (render_calls [AddText ''A\<newline>0\<newline>CIRCLE'' 0 0 10 ''TEXT'' 0]) =
     Inr ([TEXT (Some ''TEXT'') (Some 7) (Fin 0) (Fin 0) (Fin 10) (Some ''A''),
           CIRCLE (Some ''0'') (Some 7) (Fin 0, Fin 0) (Fin 0)],
          \<lparr>minX = Fin 0, minY = Fin 0, maxX = Fin 6, maxY = Fin 10\<rparr>)"
proof -
  let ?pre = "[''0'', ''TEXT'', ''8'', ''TEXT'', ''10'', ''0.000'', ''20'', ''0.000'', ''30'', ''0.0'',
      ''40'', ''10'', ''50'', ''0'', ''1'']"
  let ?post = "[''0'', ''ENDSEC'', ''0'', ''EOF'']"
  let ?ent = "?pre @ [''A'', ''0'', ''CIRCLE''] @ ?post"
  have cl: "call_lines (AddText ''A\<newline>0\<newline>CIRCLE'' 0 0 10 ''TEXT'' 0) =
      ?pre @ [''A'' @ newline # (''0'' @ newline # ''CIRCLE'')]"
    by (simp add: call_lines_def addText_def toFixed_3_0 num_toString_small newline_def)
  have "render_calls [AddText ''A\<newline>0\<newline>CIRCLE'' 0 0 10 ''TEXT'' 0] =
      join_lines ((header_lines @ ?pre) @ (''A'' @ newline # (''0'' @ newline # ''CIRCLE'')) # ?post)"
    unfolding render_calls_eq by (simp add: cl)
  also have "\<dots> = join_lines ((header_lines @ ?pre) @ ''A'' # (''0'' @ newline # ''CIRCLE'') # ?post)"
    by (rule join_lines_inner_newline)
  also have "\<dots> = join_lines ((header_lines @ ?pre @ [''A'']) @ (''0'' @ newline # ''CIRCLE'') # ?post)"
    by simp
  also have "\<dots> = join_lines ((header_lines @ ?pre @ [''A'']) @ ''0'' # ''CIRCLE'' # ?post)"
    by (rule join_lines_inner_newline)
  also have "\<dots> = join_lines (header_lines @ ?ent)"
    by simp
  finally have r: "render_calls [AddText ''A\<newline>0\<newline>CIRCLE'' 0 0 10 ''TEXT'' 0] =
      join_lines (header_lines @ ?ent)" .
  have ne: "header_lines @ ?ent \<noteq> []" by simp
  have pl: "\<forall>l \<in> set (header_lines @ ?ent). newline \<notin> set l"
    using header_lines_plain by (simp add: newline_def)
  have tr: "map trim (header_lines @ ?ent) = header_lines @ ?ent"
    by (simp add: trim_header_lines) (simp add: trim_def is_space_def)
  have "parse_loop (header_lines @ ?ent) init_state =
      Inr \<lparr>entities = [TEXT (Some ''TEXT'') (Some 7) (Fin 0) (Fin 0) (Fin 10) (Some ''A''),
                         CIRCLE (Some ''0'') (Some 7) (Fin 0, Fin 0) (Fin 0)],
           bounds = \<lparr>minX = Fin 0, minY = Fin 0, maxX = Fin 6, maxY = Fin 10\<rparr>,
           inEntities = False\<rparr>"
    unfolding parse_loop_header
    by (simp add: parseInt_codes init_state_def parse_entity_def Let_def parseInt_opt_def
        parseFloat_opt_def parseFloat_small updateBounds_def num_gt_def num_sub_def)
  then show ?thesis
    unfolding r parseDxf_join [OF ne pl] tr by simp
qed

section \<open>The distance computed by \<open>addDimension\<close>\<close>

lemma rnd_evalI:
  assumes "- 1022 \<le> e" "2 powr (of_int e) \<le> \<bar>x\<bar>" "\<bar>x\<bar> < 2 powr (of_int e + 1)"
    and "of_int m - 1 / 2 < x / 2 powr (of_int e - 52)"
    and "x / 2 powr (of_int e - 52) < of_int m + 1 / 2"
  shows "rnd x = of_int m * 2 powr (of_int e - 52)"
  using rnd_eval [OF assms(1-3)] round_even_eqI [OF assms(4,5)] by simp

lemma rnd_sqrt_evalI:
  assumes "- 1022 \<le> e" "0 < m"
    and "(2 powr (of_int e))\<^sup>2 \<le> s" "s < (2 powr (of_int e + 1))\<^sup>2"
    and "((of_int m - 1 / 2) * 2 powr (of_int e - 52))\<^sup>2 < s"
    and "s < ((of_int m + 1 / 2) * 2 powr (of_int e - 52))\<^sup>2"
  shows "rnd (sqrt s) = of_int m * 2 powr (of_int e - 52)"
proof -
  define q :: real where "q = 2 powr (of_int e - 52)"
  have q: "0 < q" by (simp add: q_def)
  have m: "0 \<le> (of_int m - 1 / 2 :: real)" "0 \<le> (of_int m + 1 / 2 :: real)"
    using assms(2) by simp_all
  have s0: "0 \<le> s" using assms(3) by (smt (verit) zero_le_power2)
  have ge: "2 powr (of_int e) \<le> sqrt s" using assms(3) by (rule real_le_rsqrt)
  have lt: "sqrt s < 2 powr (of_int e + 1)" using assms(4) by (intro real_less_lsqrt) simp_all
  have lo: "(of_int m - 1 / 2) * q < sqrt s"
    using assms(5) unfolding q_def by (rule real_less_rsqrt)
  have hi: "sqrt s < (of_int m + 1 / 2) * q"
    using assms(6) m q unfolding q_def by (intro real_less_lsqrt) simp_all
  have "rnd (sqrt s) = of_int m * 2 powr (of_int e - 52)"
  proof (rule rnd_evalI [OF assms(1)])
    show "2 powr (of_int e) \<le> \<bar>sqrt s\<bar>" using ge by simp
    show "\<bar>sqrt s\<bar> < 2 powr (of_int e + 1)" using lt s0 by simp
    show "of_int m - 1 / 2 < sqrt s / 2 powr (of_int e - 52)"
      using lo q unfolding q_def by (simp add: pos_less_divide_eq)
    show "sqrt s / 2 powr (of_int e - 52) < of_int m + 1 / 2"
      using hi q unfolding q_def by (simp add: pos_divide_less_eq)
  qed
  then show ?thesis .
qed

lemma square_error:
  fixes a f e :: real
  assumes "\<bar>a\<bar> \<le> 1 / 10" "\<bar>f - a\<bar> \<le> e" "0 \<le> e" "e \<le> 1 / 10"
  shows "\<bar>f\<^sup>2 - a\<^sup>2\<bar> \<le> 3 / 10 * e"
proof -
  have "\<bar>f + a\<bar> \<le> 3 / 10" using assms by linarith
  then have "\<bar>f - a\<bar> * \<bar>f + a\<bar> \<le> e * (3 / 10)"
    using assms(2,3) by (intro mult_mono) simp_all
  moreover have "f\<^sup>2 - a\<^sup>2 = (f - a) * (f + a)" by (simp add: power2_eq_square algebra_simps)
  ultimately show ?thesis by (simp add: abs_mult)
qed

lemma dimension_dist_small:
  assumes "sqrt ((x2 - x1)\<^sup>2 + (y2 - y1)\<^sup>2) \<le> 0.09999999999999"
  shows "dimension_dist x1 y1 x2 y2 < rnd 0.1"
proof -
  define a where "a = x2 - x1"
  define b where "b = y2 - y1"
  define e :: real where "e = 1 / 2 ^ 53"
  define d :: real where "d = 0.09999999999999"
  have e: "0 \<le> e" "e \<le> 1 / 10" by (simp_all add: e_def)
  have d: "0 \<le> d" "d \<le> 1 / 10" by (simp_all add: d_def)
  have ab: "a\<^sup>2 + b\<^sup>2 \<le> d\<^sup>2"
    using assms unfolding a_def b_def d_def by (rule sqrt_le_D)
  have "a\<^sup>2 \<le> d\<^sup>2" "b\<^sup>2 \<le> d\<^sup>2" using ab by (smt (verit) zero_le_power2)+
  then have "\<bar>a\<bar> \<le> \<bar>d\<bar>" "\<bar>b\<bar> \<le> \<bar>d\<bar>" by (simp_all add: abs_le_square_iff)
  then have a1: "\<bar>a\<bar> \<le> 1 / 10" and b1: "\<bar>b\<bar> \<le> 1 / 10" using d by simp_all
  define fa where "fa = rnd a"
  define fb where "fb = rnd b"
  have ea: "\<bar>fa - a\<bar> \<le> e" unfolding fa_def e_def using a1 by (intro rnd_error_unit) simp
  have eb: "\<bar>fb - b\<bar> \<le> e" unfolding fb_def e_def using b1 by (intro rnd_error_unit) simp
  have sa: "\<bar>fa\<^sup>2 - a\<^sup>2\<bar> \<le> 3 / 10 * e" using a1 ea e by (rule square_error)
  have sb: "\<bar>fb\<^sup>2 - b\<^sup>2\<bar> \<le> 3 / 10 * e" using b1 eb e by (rule square_error)
  have a2: "a\<^sup>2 \<le> 1 / 100" "b\<^sup>2 \<le> 1 / 100"
  proof -
    have "d\<^sup>2 \<le> 1 / 100" by (simp add: d_def power2_eq_square)
    with \<open>a\<^sup>2 \<le> d\<^sup>2\<close> \<open>b\<^sup>2 \<le> d\<^sup>2\<close> show "a\<^sup>2 \<le> 1 / 100" "b\<^sup>2 \<le> 1 / 100" by simp_all
  qed
  define pa where "pa = rnd (fa\<^sup>2)"
  define pb where "pb = rnd (fb\<^sup>2)"
  have "fa\<^sup>2 \<le> 1" "fb\<^sup>2 \<le> 1" using sa sb a2 e by linarith+
  then have f1: "\<bar>fa\<^sup>2\<bar> \<le> 1" "\<bar>fb\<^sup>2\<bar> \<le> 1" by simp_all
  have ep: "\<bar>pa - fa\<^sup>2\<bar> \<le> e" "\<bar>pb - fb\<^sup>2\<bar> \<le> e"
    unfolding pa_def pb_def e_def
    by (rule rnd_error_unit [OF f1(1)]) (rule rnd_error_unit [OF f1(2)])
  have p0: "0 \<le> pa" "0 \<le> pb" unfolding pa_def pb_def by (simp_all add: rnd_sign)
  have pab: "pa + pb \<le> d\<^sup>2 + 26 / 10 * e" using ep sa sb ab by linarith
  have d2: "d\<^sup>2 + 36 / 10 * e < (1 / 10 - e)\<^sup>2"
    by (simp add: d_def e_def power2_eq_square)
  have "(1 / 10 - e)\<^sup>2 \<le> 1" using e by (simp add: power2_eq_square e_def)
  then have "\<bar>pa + pb\<bar> \<le> 1" using pab d2 p0 e by linarith
  define s where "s = rnd (pa + pb)"
  have es: "\<bar>s - (pa + pb)\<bar> \<le> e" unfolding s_def e_def using \<open>\<bar>pa + pb\<bar> \<le> 1\<close> by (rule rnd_error_unit)
  have s0: "0 \<le> s" unfolding s_def using p0 by (simp add: rnd_sign)
  have s1: "s < (1 / 10 - e)\<^sup>2" using es pab d2 by linarith
  have r1: "sqrt s < 1 / 10 - e" using s1 e by (intro real_less_lsqrt) (simp_all add: e_def)
  moreover have "0 \<le> sqrt s" using s0 by simp
  ultimately have "\<bar>sqrt s\<bar> \<le> 1" using e by linarith
  then have er: "\<bar>rnd (sqrt s) - sqrt s\<bar> \<le> e" unfolding e_def by (rule rnd_error_unit)
  have "rnd (sqrt s) < 1 / 10" using er r1 by linarith
  moreover have "(1 / 10 :: real) \<le> rnd (1 / 10)" unfolding rnd_tenth by simp
  moreover have "dimension_dist x1 y1 x2 y2 = rnd (sqrt s)"
    by (simp add: dimension_dist_def Math_sqrt_def Math_pow_def fadd_def fsub_def s_def pa_def pb_def
        fa_def fb_def a_def b_def)
  ultimately show ?thesis by simp
qed

lemma addDimension_skip:
  "dimension_dist x1 y1 x2 y2 < rnd 0.1 \<Longrightarrow> addDimension w x1 y1 x2 y2 val offset = w"
  by (simp add: addDimension_def Let_def)

lemma addDimension_length:
  "\<not> dimension_dist x1 y1 x2 y2 < rnd 0.1 \<Longrightarrow>
   length (content (addDimension w x1 y1 x2 y2 val offset)) = length (content w) + 106"
  by (simp add: addDimension_def Let_def addLine_def addText_def)

text \<open>
  The numbers written \<open>0.08073127776809785\<close> and \<open>0.05901237827719053\<close>, and the distance
  computed between the origin and the point with these coordinates.
\<close>

lemma rnd_edge_literals:
  "rnd 0.08073127776809785 = 727162704947099 / 9007199254740992"
  "rnd 0.05901237827719053 = 8504579994220865 / 144115188075855872"
proof -
  have "rnd 0.08073127776809785 = of_int 5817301639576792 * 2 powr (of_int (- 4) - 52)"
    by (rule rnd_evalI) (simp_all add: powr_neg_numeral)
  then show "rnd 0.08073127776809785 = 727162704947099 / 9007199254740992"
    by (simp add: powr_neg_numeral)
  have "rnd 0.05901237827719053 = of_int 8504579994220865 * 2 powr (of_int (- 5) - 52)"
    by (rule rnd_evalI) (simp_all add: powr_neg_numeral)
  then show "rnd 0.05901237827719053 = 8504579994220865 / 144115188075855872"
    by (simp add: powr_neg_numeral)
qed

lemma dimension_dist_edge:
  "dimension_dist 0 0 (727162704947099 / 9007199254740992) (8504579994220865 / 144115188075855872) =
     3602879701896397 / 36028797018963968"
proof -
  have x: "rnd (727162704947099 / 9007199254740992) = 727162704947099 / 9007199254740992"
    by (rule rnd_grid [of _ 53]) simp_all
  have y: "rnd (8504579994220865 / 144115188075855872) = 8504579994220865 / 144115188075855872"
    by (rule rnd_grid [of _ 57]) simp_all
  have "rnd ((727162704947099 / 9007199254740992)\<^sup>2) =
      of_int 7514211112407761 * 2 powr (of_int (- 8) - 52)"
    by (rule rnd_evalI) (simp_all add: powr_neg_numeral power2_eq_square)
  then have pa: "rnd ((727162704947099 / 9007199254740992)\<^sup>2) =
      7514211112407761 / 1152921504606846976"
    by (simp add: powr_neg_numeral)
  have "rnd ((8504579994220865 / 144115188075855872)\<^sup>2) =
      of_int 8030007867321417 * 2 powr (of_int (- 9) - 52)"
    by (rule rnd_evalI) (simp_all add: powr_neg_numeral power2_eq_square)
  then have pb: "rnd ((8504579994220865 / 144115188075855872)\<^sup>2) =
      8030007867321417 / 2305843009213693952"
    by (simp add: powr_neg_numeral)
  have "rnd (7514211112407761 / 1152921504606846976 + 8030007867321417 / 2305843009213693952) =
      of_int 5764607523034235 * 2 powr (of_int (- 7) - 52)"
    by (rule rnd_evalI) (simp_all add: powr_neg_numeral)
  then have s: "rnd (7514211112407761 / 1152921504606846976 + 8030007867321417 / 2305843009213693952) =
      5764607523034235 / 576460752303423488"
    by (simp add: powr_neg_numeral)
  have "rnd (sqrt (5764607523034235 / 576460752303423488)) =
      of_int 7205759403792794 * 2 powr (of_int (- 4) - 52)"
    by (rule rnd_sqrt_evalI) (simp_all add: powr_neg_numeral power2_eq_square)
  then have r: "rnd (sqrt (5764607523034235 / 576460752303423488)) =
      3602879701896397 / 36028797018963968"
    by (simp add: powr_neg_numeral)
  show ?thesis
    unfolding dimension_dist_def Math_sqrt_def Math_pow_def fadd_def fsub_def
    by (simp only: diff_zero x y pa pb s r)
qed

section \<open>The value of \<open>\<pi>\<close> and the range of \<open>Math.atan2\<close>\<close>

lemma arctan_partial_bounds:
  fixes x :: real
  assumes "0 \<le> x" "x \<le> 1"
  shows "(\<Sum>i<2 * n. (- 1) ^ i * (1 / real (i * 2 + 1) * x ^ (i * 2 + 1))) \<le> arctan x"
    and "arctan x \<le> (\<Sum>i<2 * n + 1. (- 1) ^ i * (1 / real (i * 2 + 1) * x ^ (i * 2 + 1)))"
proof -
  define a where "a = (\<lambda>n. 1 / real (n * 2 + 1) * x ^ (n * 2 + 1))"
  have ax: "\<bar>x\<bar> \<le> 1" using assms by simp
  have z: "a \<longlonglongrightarrow> 0" unfolding a_def using ax by (rule zeroseq_arctan_series)
  have p: "0 \<le> a n" for n unfolding a_def using assms by simp
  have m: "a (Suc n) \<le> a n" for n
  proof -
    have "x ^ (Suc n * 2 + 1) \<le> x ^ (n * 2 + 1)"
      using assms by (intro power_decreasing) simp_all
    moreover have "1 / real (Suc n * 2 + 1) \<le> 1 / real (n * 2 + 1)"
      by (intro divide_left_mono) simp_all
    ultimately show ?thesis unfolding a_def using assms by (intro mult_mono) simp_all
  qed
  have s: "arctan x = (\<Sum>k. (- 1) ^ k * a k)" unfolding a_def using ax by (rule arctan_series)
  have "(\<Sum>i<2 * n. (- 1) ^ i * a i) \<le> arctan x"
    unfolding s using z p m by (rule summable_Leibniz'(2))
  then show "(\<Sum>i<2 * n. (- 1) ^ i * (1 / real (i * 2 + 1) * x ^ (i * 2 + 1))) \<le> arctan x"
    by (simp only: a_def)
  have "arctan x \<le> (\<Sum>i<2 * n + 1. (- 1) ^ i * a i)"
    unfolding s using z p m by (rule summable_Leibniz'(4))
  then show "arctan x \<le> (\<Sum>i<2 * n + 1. (- 1) ^ i * (1 / real (i * 2 + 1) * x ^ (i * 2 + 1)))"
    by (simp only: a_def)
qed

lemma arctan_fifth:
  "157490522761940959144868 / 797842276096343994140625 \<le> arctan (1 / 5)"
  "arctan (1 / 5) \<le> 98431576726213099532470361 / 498651422560214996337890625"
proof -
  have l: "(\<Sum>i<2 * 6. (- 1) ^ i * (1 / real (i * 2 + 1) * (1 / 5) ^ (i * 2 + 1))) =
      (157490522761940959144868 / 797842276096343994140625 :: real)"
    by (simp add: lessThan_nat_numeral lessThan_Suc power_one_over)
  have u: "(\<Sum>i<2 * 6 + 1. (- 1) ^ i * (1 / real (i * 2 + 1) * (1 / 5) ^ (i * 2 + 1))) =
      (98431576726213099532470361 / 498651422560214996337890625 :: real)"
    by (simp add: lessThan_nat_numeral lessThan_Suc power_one_over)
  show "157490522761940959144868 / 797842276096343994140625 \<le> arctan (1 / 5)"
    using arctan_partial_bounds(1) [of "1 / 5" 6] unfolding l by simp
  show "arctan (1 / 5) \<le> 98431576726213099532470361 / 498651422560214996337890625"
    using arctan_partial_bounds(2) [of "1 / 5" 6] unfolding u by simp
qed

lemma arctan_239th:
  "19569249503065996 / 4677077924340368295 \<le> arctan (1 / 239)"
  "arctan (1 / 239) \<le> 3353445302593898272583 / 801478104348738532136085"
proof -
  have l: "(\<Sum>i<2 * 2. (- 1) ^ i * (1 / real (i * 2 + 1) * (1 / 239) ^ (i * 2 + 1))) =
      (19569249503065996 / 4677077924340368295 :: real)"
    by (simp add: lessThan_nat_numeral lessThan_Suc power_one_over)
  have u: "(\<Sum>i<2 * 2 + 1. (- 1) ^ i * (1 / real (i * 2 + 1) * (1 / 239) ^ (i * 2 + 1))) =
      (3353445302593898272583 / 801478104348738532136085 :: real)"
    by (simp add: lessThan_nat_numeral lessThan_Suc power_one_over)
  show "19569249503065996 / 4677077924340368295 \<le> arctan (1 / 239)"
    using arctan_partial_bounds(1) [of "1 / 239" 2] unfolding l by simp
  show "arctan (1 / 239) \<le> 3353445302593898272583 / 801478104348738532136085"
    using arctan_partial_bounds(2) [of "1 / 239" 2] unfolding u by simp
qed

lemma pi_digits: "3.1415926535897932 < pi" "pi < 3.1415926535897933"
proof -
  have "pi = 16 * arctan (1 / 5) - 4 * arctan (1 / 239)" using machin by simp
  then show "3.1415926535897932 < pi" "pi < 3.1415926535897933"
    using arctan_fifth arctan_239th by simp_all
qed

lemma rnd_pi: "rnd pi = Math_PI"
proof -
  have "rnd pi = of_int 7074237752028440 * 2 powr (of_int 1 - 52)"
    by (rule rnd_evalI) (use pi_digits in \<open>simp_all add: powr_neg_numeral\<close>)
  then show ?thesis by (simp add: powr_neg_numeral Math_PI_def)
qed

lemma atan2_range: "- Math_PI \<le> atan2 y x \<and> atan2 y x \<le> Math_PI"
proof -
  have P: "0 < Math_PI" by (simp add: Math_PI_def)
  have a: "- (pi / 2) < arctan (y / x)" "arctan (y / x) < pi / 2"
    by (rule arctan_lbound, rule arctan_ubound)
  have p: "0 < pi" by (rule pi_gt_zero)
  have r: "- Math_PI \<le> rnd t \<and> rnd t \<le> Math_PI" if "- pi \<le> t" "t \<le> pi" for t
    using rnd_mono [OF that(1)] rnd_mono [OF that(2)] by (simp add: rnd_minus rnd_pi)
  consider "x = 0" | "x \<noteq> 0" "y = 0" | "0 < x" "y \<noteq> 0" | "x < 0" "0 < y" | "x < 0" "y < 0"
    by linarith
  then show ?thesis
  proof cases
    case 1
    then show ?thesis using P by (simp add: atan2_def)
  next
    case 2
    then show ?thesis using P by (simp add: atan2_def)
  next
    case 3
    then have "atan2 y x = rnd (arctan (y / x))" by (simp add: atan2_def)
    moreover have "- pi \<le> arctan (y / x)" "arctan (y / x) \<le> pi" using a p by linarith+
    ultimately show ?thesis using r by simp
  next
    case 4
    then have "y / x \<le> 0" by (simp add: divide_nonneg_neg)
    then have "arctan (y / x) \<le> 0" using arctan_le_zero_iff by blast
    moreover from 4 have "atan2 y x = rnd (arctan (y / x) + pi)" by (simp add: atan2_def)
    moreover have "- pi \<le> arctan (y / x) + pi" using a p by linarith
    ultimately show ?thesis using r [of "arctan (y / x) + pi"] by simp
  next
    case 5
    then have "0 < y / x" by (simp add: divide_neg_neg)
    then have "0 < arctan (y / x)" using zero_less_arctan_iff by blast
    moreover from 5 have "atan2 y x = rnd (arctan (y / x) - pi)" by (simp add: atan2_def)
    moreover have "arctan (y / x) - pi \<le> pi" using a p by linarith
    ultimately show ?thesis using r [of "arctan (y / x) - pi"] by simp
  qed
qed

text \<open>The angle in degrees: \<open>angle * 180 / Math.PI\<close>.\<close>

lemma degrees_of_pi: "fdiv (fmul Math_PI 180) Math_PI = 180"
proof -
  have "rnd (Math_PI * 180) = of_int 4974073419394997 * 2 powr (of_int 9 - 52)"
    by (rule rnd_evalI) (simp_all add: powr_neg_numeral Math_PI_def)
  then have t: "rnd (Math_PI * 180) = 4974073419394997 / 8796093022208"
    by (simp add: powr_neg_numeral)
  have "rnd (4974073419394997 / 8796093022208 / Math_PI) = of_int 6333186975989760 * 2 powr (of_int 7 - 52)"
    by (rule rnd_evalI) (simp_all add: powr_neg_numeral Math_PI_def)
  then have d: "rnd (4974073419394997 / 8796093022208 / Math_PI) = 180"
    by (simp add: powr_neg_numeral)
  show ?thesis unfolding fdiv_def fmul_def t d by (rule refl)
qed

lemma degrees_of_half_pi: "fdiv (fmul (Math_PI / 2) 180) Math_PI = 90"
proof -
  have "rnd (Math_PI / 2 * 180) = of_int 4974073419394997 * 2 powr (of_int 8 - 52)"
    by (rule rnd_evalI) (simp_all add: powr_neg_numeral Math_PI_def)
  then have t: "rnd (Math_PI / 2 * 180) = 4974073419394997 / 17592186044416"
    by (simp add: powr_neg_numeral)
  have "rnd (4974073419394997 / 17592186044416 / Math_PI) = of_int 6333186975989760 * 2 powr (of_int 6 - 52)"
    by (rule rnd_evalI) (simp_all add: powr_neg_numeral Math_PI_def)
  then have d: "rnd (4974073419394997 / 17592186044416 / Math_PI) = 90"
    by (simp add: powr_neg_numeral)
  show ?thesis unfolding fdiv_def fmul_def t d by (rule refl)
qed

lemma degrees_minus: "fdiv (fmul (- t) 180) Math_PI = - fdiv (fmul t 180) Math_PI"
  by (simp add: fdiv_def fmul_def rnd_minus)

lemma degrees_mono:
  assumes "s \<le> t"
  shows "fdiv (fmul s 180) Math_PI \<le> fdiv (fmul t 180) Math_PI"
proof -
  have P: "0 < Math_PI" by (simp add: Math_PI_def)
  have "rnd (s * 180) \<le> rnd (t * 180)" using assms by (intro rnd_mono) simp
  then have "rnd (s * 180) / Math_PI \<le> rnd (t * 180) / Math_PI"
    using P by (simp add: divide_right_mono)
  then show ?thesis unfolding fdiv_def fmul_def by (rule rnd_mono)
qed

lemma angle_degrees_range:
  "- 180 \<le> fdiv (fmul (atan2 y x) 180) Math_PI \<and> fdiv (fmul (atan2 y x) 180) Math_PI \<le> 180"
  using degrees_mono [of "atan2 y x" Math_PI] degrees_mono [of "- Math_PI" "atan2 y x"]
    atan2_range [of y x]
  by (simp add: degrees_minus degrees_of_pi)

lemma dimension_textRot_eq:
  "dimension_textRot x1 y1 x2 y2 =
     (let a = fdiv (fmul (atan2 (fsub y2 y1) (fsub x2 x1)) 180) Math_PI
      in if - 90 \<le> a \<and> a \<le> 90 then a else fadd a 180)"
  by (auto simp: dimension_textRot_def Let_def)

lemma addDimension_text:
  assumes "\<not> dimension_dist x1 y1 x2 y2 < rnd 0.1"
  shows "\<exists>w' s x y. addDimension w x1 y1 x2 y2 val offset =
           addText w' s x y 3.5 ''TEXT'' (dimension_textRot x1 y1 x2 y2)"
  using assms unfolding addDimension_def Let_def by (simp only: if_False) blast

lemma addDimension_text_lines:
  assumes "\<not> dimension_dist x1 y1 x2 y2 < rnd 0.1"
  shows "drop (length (content (addDimension w x1 y1 x2 y2 val offset)) - 4)
           (content (addDimension w x1 y1 x2 y2 val offset)) =
         [''50'', num_toString (dimension_textRot x1 y1 x2 y2), ''1'',
          toFixed 1 (case val of Some v \<Rightarrow> v | None \<Rightarrow> dimension_dist x1 y1 x2 y2)]"
  using assms by (simp add: addDimension_def Let_def addText_def addLine_def)

text \<open>Two dimension lines: from \<open>(0, 0)\<close> up and to the left to \<open>(-1, 1)\<close>, and straight up to \<open>(0, 10)\<close>.\<close>

lemma atan2_up_left: "atan2 1 (- 1) = 2652839157010665 / 1125899906842624"
proof -
  have "arctan (- 1) = - (pi / 4)" using arctan_minus [of 1] by (simp add: arctan_one)
  then have e: "arctan (- 1) + pi = 3 * pi / 4" by simp
  have "atan2 1 (- 1) = rnd (arctan (- 1) + pi)" by (simp add: atan2_def)
  then have "atan2 1 (- 1) = rnd (3 * pi / 4)" by (simp only: e)
  moreover have "rnd (3 * pi / 4) = of_int 5305678314021330 * 2 powr (of_int 1 - 52)"
    by (rule rnd_evalI) (use pi_digits in \<open>simp_all add: powr_neg_numeral\<close>)
  ultimately show ?thesis by (simp add: powr_neg_numeral)
qed

lemma degrees_up_left: "fdiv (fmul (2652839157010665 / 1125899906842624) 180) Math_PI = 135"
proof -
  have "rnd (2652839157010665 / 1125899906842624 * 180) =
      of_int 7461110129092495 * 2 powr (of_int 8 - 52)"
    by (rule rnd_evalI) (simp_all add: powr_neg_numeral)
  then have t: "rnd (2652839157010665 / 1125899906842624 * 180) = 7461110129092495 / 17592186044416"
    by (simp add: powr_neg_numeral)
  have "rnd (7461110129092495 / 17592186044416 / Math_PI) = of_int 4749890231992320 * 2 powr (of_int 7 - 52)"
    by (rule rnd_evalI) (simp_all add: powr_neg_numeral Math_PI_def)
  then have d: "rnd (7461110129092495 / 17592186044416 / Math_PI) = 135"
    by (simp add: powr_neg_numeral)
  show ?thesis unfolding fdiv_def fmul_def t d by (rule refl)
qed

lemma rnd_small_ints:
  "rnd 0 = 0" "rnd 1 = 1" "rnd (- 1) = - 1" "rnd 2 = 2" "rnd 10 = 10" "rnd 100 = 100"
  "rnd 315 = 315"
  by (simp_all add: rnd_quarters)

lemma dimension_textRot_up_left: "dimension_textRot 0 0 (- 1) 1 = 315"
  by (simp add: dimension_textRot_def Let_def fsub_def fadd_def rnd_small_ints atan2_up_left
      degrees_up_left)

lemma dimension_dist_up_left: "\<not> dimension_dist 0 0 (- 1) 1 < rnd 0.1"
proof -
  have "(1::real) \<le> sqrt 2" by simp
  then have "rnd 1 \<le> rnd (sqrt 2)" by (rule rnd_mono)
  moreover have "dimension_dist 0 0 (- 1) 1 = rnd (sqrt 2)"
    by (simp add: dimension_dist_def Math_sqrt_def Math_pow_def fadd_def fsub_def rnd_small_ints)
  ultimately show ?thesis by (simp add: rnd_small_ints rnd_tenth)
qed

lemma dimension_textRot_up: "dimension_textRot 0 0 0 10 = 90"
  by (simp add: dimension_textRot_def Let_def fsub_def rnd_small_ints atan2_def degrees_of_half_pi)

lemma dimension_dist_up: "dimension_dist 0 0 0 10 = 10"
proof -
  have "sqrt 100 = (10::real)" by (rule real_sqrt_unique) simp_all
  then show ?thesis
    by (simp add: dimension_dist_def Math_sqrt_def Math_pow_def fadd_def fsub_def rnd_small_ints)
qed

lemma num_toString_315: "num_toString 315 = ''315''"
  by (simp add: num_toString_def Let_def) (simp add: nat_digits.simps digit_char_def)

lemma toFixed_1_5: "toFixed (Suc 0) 5 = ''5.0''"
  by (simp add: toFixed_def Let_def) (simp add: nat_digits.simps digit_char_def)

section \<open>Properties of \<open>calculateFlatPattern\<close>\<close>

lemma on_grid_add: "on_grid g x \<Longrightarrow> on_grid g y \<Longrightarrow> on_grid g (x + y)"
  by (simp add: on_grid_def distrib_right)

lemma on_grid_diff: "on_grid g x \<Longrightarrow> on_grid g y \<Longrightarrow> on_grid g (x - y)"
  by (simp add: on_grid_def left_diff_distrib)

lemma on_grid_mult: "on_grid g x \<Longrightarrow> on_grid g (of_int k * x)"
  by (simp add: on_grid_def mult.assoc)

lemma on_grid_mult_nat: "on_grid g x \<Longrightarrow> on_grid g (real n * x)"
  using on_grid_mult [of g x "int n"] by simp

lemma on_grid_0: "on_grid g 0"
  by (simp add: on_grid_def)

lemma on_grid_sum_list: "\<forall>s \<in> set xs. on_grid g s \<Longrightarrow> on_grid g (sum_list xs)"
  by (induction xs) (simp_all add: on_grid_0 on_grid_add)

lemma rnd_on_grid:
  assumes "on_grid g x" "\<bar>x\<bar> \<le> m" "m * 2 ^ g \<le> 2 ^ 53" "g \<le> 1074"
  shows "rnd x = x"
proof -
  have "\<bar>x\<bar> * 2 ^ g \<le> m * 2 ^ g" using assms(2) by (intro mult_right_mono) simp_all
  then have "\<bar>x\<bar> * 2 ^ g \<le> 2 ^ 53" using assms(3) by linarith
  with assms(1,4) show ?thesis unfolding on_grid_def by (intro rnd_grid)
qed

lemma foldl_fadd_exact:
  assumes "g \<le> 1074" "m * 2 ^ g \<le> 2 ^ 53"
  shows "on_grid g a \<Longrightarrow> \<forall>s \<in> set xs. on_grid g s \<Longrightarrow> \<bar>a\<bar> + sum_list (map abs xs) \<le> m \<Longrightarrow>
         foldl fadd a xs = a + sum_list xs"
proof (induction xs arbitrary: a)
  case Nil
  then show ?case by simp
next
  case (Cons x xs)
  have n: "0 \<le> sum_list (map abs xs)" by (rule sum_list_nonneg) auto
  have g: "on_grid g (a + x)" using Cons.prems by (simp add: on_grid_add)
  have "\<bar>a + x\<bar> \<le> m" using Cons.prems(3) n by simp
  then have e: "fadd a x = a + x" unfolding fadd_def using g assms by (intro rnd_on_grid [of g _ m])
  have "foldl fadd (a + x) xs = a + x + sum_list xs"
    using Cons.prems g by (intro Cons.IH) simp_all
  then show ?case by (simp add: e)
qed

lemma foldl_index_take:
  "n \<le> length xs \<Longrightarrow> foldl (\<lambda>c k. f c (xs ! k)) a [0 ..< n] = foldl f a (take n xs)"
proof (induction n)
  case 0
  then show ?case by simp
next
  case (Suc n)
  then have "take (Suc n) xs = take n xs @ [xs ! n]"
    by (simp add: take_Suc_conv_app_nth)
  with Suc show ?case by simp
qed

lemma sum_list_abs_take: "sum_list (map abs (take n xs)) \<le> sum_list (map abs (xs :: real list))"
proof -
  have "sum_list (map abs xs) = sum_list (map abs (take n xs)) + sum_list (map abs (drop n xs))"
    by (metis append_take_drop_id map_append sum_list.append)
  moreover have "0 \<le> sum_list (map abs (drop n xs))" by (rule sum_list_nonneg) auto
  ultimately show ?thesis by simp
qed

lemma sum_list_abs: "\<bar>sum_list xs\<bar> \<le> sum_list (map abs (xs :: real list))"
  by (induction xs) auto

lemma exact_input_bound:
  assumes "exact_input g segments t"
  shows "g \<le> 1074"
    and "(sum_list (map abs segments) + 2 * real (length segments) * \<bar>t\<bar>) * 2 ^ g \<le> 2 ^ 53"
    and "on_grid g t" and "\<forall>s \<in> set segments. on_grid g s"
  using assms by (simp_all add: exact_input_def)

lemma cumOuter_sum:
  assumes "exact_input g segments t" "i < length segments"
  shows "cumOuter segments i = sum_list (take (Suc i) segments)"
proof -
  note e = exact_input_bound [OF assms(1)]
  have "cumOuter segments i = foldl fadd 0 (take (Suc i) segments)"
    unfolding cumOuter_def using assms(2) by (intro foldl_index_take) simp
  also have "\<dots> = 0 + sum_list (take (Suc i) segments)"
  proof (rule foldl_fadd_exact [OF e(1,2)])
    show "on_grid g 0" by (rule on_grid_0)
    show "\<forall>s \<in> set (take (Suc i) segments). on_grid g s"
      using e(4) by (meson in_set_takeD)
    have "0 \<le> 2 * real (length segments) * \<bar>t\<bar>" by simp
    then show "\<bar>0\<bar> + sum_list (map abs (take (Suc i) segments))
        \<le> sum_list (map abs segments) + 2 * real (length segments) * \<bar>t\<bar>"
      using sum_list_abs_take [of "Suc i" segments] by linarith
  qed
  finally show ?thesis by simp
qed

lemma totalOuter_sum:
  assumes "exact_input g segments t"
  shows "foldl fadd 0 segments = sum_list segments"
proof -
  note e = exact_input_bound [OF assms(1)]
  have "foldl fadd 0 segments = 0 + sum_list segments"
  proof (rule foldl_fadd_exact [OF e(1,2)])
    show "on_grid g 0" by (rule on_grid_0)
    show "\<forall>s \<in> set segments. on_grid g s" by (rule e(4))
    show "\<bar>0\<bar> + sum_list (map abs segments)
        \<le> sum_list (map abs segments) + 2 * real (length segments) * \<bar>t\<bar>" by simp
  qed
  then show ?thesis by simp
qed

lemma deduction_exact:
  assumes "exact_input g segments t" "k \<le> length segments" "0 < length segments"
  shows "fmul 2 t = 2 * t" and "fdiv (2 * t) 2 = t" and "fmul (real k) (2 * t) = real k * (2 * t)"
    and "k < length segments \<Longrightarrow> fadd (real k * (2 * t)) t = real k * (2 * t) + t"
proof -
  note e = exact_input_bound [OF assms(1)]
  define m where "m = sum_list (map abs segments) + 2 * real (length segments) * \<bar>t\<bar>"
  define nt where "nt = real (length segments) * \<bar>t\<bar>"
  define kt where "kt = real k * \<bar>t\<bar>"
  have s: "0 \<le> sum_list (map abs segments)" by (rule sum_list_nonneg) auto
  have m: "m = sum_list (map abs segments) + 2 * nt" by (simp add: m_def nt_def)
  have em: "m * 2 ^ g \<le> 2 ^ 53" using e(2) by (simp add: m_def)
  have t0: "0 \<le> \<bar>t\<bar>" by simp
  have k0: "0 \<le> kt" by (simp add: kt_def)
  have kn: "kt \<le> nt"
    unfolding kt_def nt_def using assms(2) by (intro mult_right_mono) simp_all
  have tn: "\<bar>t\<bar> \<le> nt"
  proof -
    have "1 \<le> real (length segments)" using assms(3) by linarith
    then have "1 * \<bar>t\<bar> \<le> real (length segments) * \<bar>t\<bar>"
      by (intro mult_right_mono) simp_all
    then show ?thesis by (simp add: nt_def)
  qed
  have g2: "on_grid g (2 * t)" using on_grid_mult [OF e(3), of 2] by simp
  have gk: "on_grid g (real k * (2 * t))" using g2 by (rule on_grid_mult_nat)
  have a2: "\<bar>2 * t\<bar> = 2 * \<bar>t\<bar>" by simp
  have ak: "\<bar>real k * (2 * t)\<bar> = 2 * kt" by (simp add: kt_def abs_mult)
  show "fmul (real k) (2 * t) = real k * (2 * t)"
    unfolding fmul_def
  proof (rule rnd_on_grid [OF gk _ em e(1)])
    show "\<bar>real k * (2 * t)\<bar> \<le> m" unfolding ak m using kn s by linarith
  qed
  have "rnd t = t"
  proof (rule rnd_on_grid [OF e(3) _ em e(1)])
    show "\<bar>t\<bar> \<le> m" unfolding m using tn s t0 by linarith
  qed
  then show "fdiv (2 * t) 2 = t" by (simp add: fdiv_def)
  show "fmul 2 t = 2 * t"
    unfolding fmul_def
  proof (rule rnd_on_grid [OF g2 _ em e(1)])
    show "\<bar>2 * t\<bar> \<le> m" unfolding a2 m using tn s t0 by linarith
  qed
  show "fadd (real k * (2 * t)) t = real k * (2 * t) + t" if "k < length segments"
    unfolding fadd_def
  proof (rule rnd_on_grid [OF on_grid_add [OF gk e(3)] _ em e(1)])
    have "real k + 1 \<le> real (length segments)" using that by simp
    then have "(real k + 1) * \<bar>t\<bar> \<le> real (length segments) * \<bar>t\<bar>"
      by (intro mult_right_mono) simp_all
    then have "kt + \<bar>t\<bar> \<le> nt" by (simp add: kt_def nt_def algebra_simps)
    moreover have "\<bar>real k * (2 * t) + t\<bar> \<le> \<bar>real k * (2 * t)\<bar> + \<bar>t\<bar>"
      by (rule abs_triangle_ineq)
    ultimately show "\<bar>real k * (2 * t) + t\<bar> \<le> m" unfolding m using ak s kn k0 by linarith
  qed
qed

lemma flatLength_eq:
  assumes "exact_input g segments t" "0 < length segments"
  shows "flatLength (calculateFlatPattern segments t) =
           sum_list segments - (real (length segments) - 1) * (2 * t)"
proof -
  note e = exact_input_bound [OF assms(1)]
  define n where "n = length segments - 1"
  have n: "real (length segments) - 1 = real n"
    using assms(2) unfolding n_def by (cases segments) simp_all
  have nl: "n \<le> length segments" "n < length segments"
    using assms(2) unfolding n_def by linarith+
  note d = deduction_exact [OF assms(1) nl(1) assms(2)]
  define m where "m = sum_list (map abs segments) + 2 * real (length segments) * \<bar>t\<bar>"
  have em: "m * 2 ^ g \<le> 2 ^ 53" using e(2) by (simp add: m_def)
  have gs: "on_grid g (sum_list segments)"
    using e(4) by (rule on_grid_sum_list)
  have g2: "on_grid g (2 * t)" using on_grid_mult [OF e(3), of 2] by simp
  have gk: "on_grid g (real n * (2 * t))" using g2 by (rule on_grid_mult_nat)
  have "real n * \<bar>t\<bar> \<le> real (length segments) * \<bar>t\<bar>"
    using nl(1) by (intro mult_right_mono) simp_all
  moreover have "\<bar>real n * (2 * t)\<bar> = 2 * (real n * \<bar>t\<bar>)" by (simp add: abs_mult)
  moreover have "\<bar>sum_list segments - real n * (2 * t)\<bar> \<le>
      \<bar>sum_list segments\<bar> + \<bar>real n * (2 * t)\<bar>" by (rule abs_triangle_ineq4)
  ultimately have b: "\<bar>sum_list segments - real n * (2 * t)\<bar> \<le> m"
    unfolding m_def using sum_list_abs [of segments] by linarith
  have "rnd (sum_list segments - real n * (2 * t)) = sum_list segments - real n * (2 * t)"
    by (rule rnd_on_grid [OF on_grid_diff [OF gs gk] b em e(1)])
  then show ?thesis
    by (simp add: calculateFlatPattern_def Let_def totalOuter_sum [OF assms(1)] d n fsub_def)
qed

lemma bendPositions_length:
  "length (bendPositions (calculateFlatPattern segments t)) = length segments - 1"
  by (simp add: calculateFlatPattern_def Let_def)

lemma bendPositions_nth:
  assumes "exact_input g segments t" "i < length segments - 1"
  shows "bendPositions (calculateFlatPattern segments t) ! i =
           sum_list (take (Suc i) segments) - (real i * (2 * t) + t)"
proof -
  note e = exact_input_bound [OF assms(1)]
  from assms(2) have il: "i < length segments" "i \<le> length segments" "0 < length segments"
    by linarith+
  note d = deduction_exact [OF assms(1) il(2,3)]
  define m where "m = sum_list (map abs segments) + 2 * real (length segments) * \<bar>t\<bar>"
  have em: "m * 2 ^ g \<le> 2 ^ 53" using e(2) by (simp add: m_def)
  define c where "c = sum_list (take (Suc i) segments)"
  have gc: "on_grid g c"
  proof -
    have "\<forall>s \<in> set (take (Suc i) segments). on_grid g s" using e(4) by (meson in_set_takeD)
    then show ?thesis unfolding c_def by (rule on_grid_sum_list)
  qed
  have g2: "on_grid g (2 * t)" using on_grid_mult [OF e(3), of 2] by simp
  have gk: "on_grid g (real i * (2 * t) + t)"
    using on_grid_add [OF on_grid_mult_nat [OF g2, of i] e(3)] .
  have "real i + 1 \<le> real (length segments)" using il(1) by simp
  then have "(real i + 1) * \<bar>t\<bar> \<le> real (length segments) * \<bar>t\<bar>"
    by (intro mult_right_mono) simp_all
  moreover have "\<bar>real i * (2 * t) + t\<bar> \<le> \<bar>real i * (2 * t)\<bar> + \<bar>t\<bar>"
    by (rule abs_triangle_ineq)
  moreover have "\<bar>real i * (2 * t)\<bar> = 2 * (real i * \<bar>t\<bar>)" by (simp add: abs_mult)
  moreover have "0 \<le> real i * \<bar>t\<bar>" by simp
  moreover have "\<bar>c\<bar> \<le> sum_list (map abs segments)"
    unfolding c_def
    using sum_list_abs [of "take (Suc i) segments"] sum_list_abs_take [of "Suc i" segments]
    by linarith
  moreover have "\<bar>c - (real i * (2 * t) + t)\<bar> \<le> \<bar>c\<bar> + \<bar>real i * (2 * t) + t\<bar>"
    by (rule abs_triangle_ineq4)
  ultimately have b: "\<bar>c - (real i * (2 * t) + t)\<bar> \<le> m"
    unfolding m_def by (simp add: algebra_simps) linarith
  have "rnd (c - (real i * (2 * t) + t)) = c - (real i * (2 * t) + t)"
    by (rule rnd_on_grid [OF on_grid_diff [OF gc gk] b em e(1)])
  then show ?thesis
    using assms(2) il(1)
    by (simp add: calculateFlatPattern_def Let_def cumOuter_sum [OF assms(1) il(1)] d fsub_def c_def)
qed

lemma bendPositions_step:
  assumes "exact_input g segments t" "Suc i < length segments - 1"
  shows "bendPositions (calculateFlatPattern segments t) ! Suc i
           - bendPositions (calculateFlatPattern segments t) ! i = segments ! Suc i - 2 * t"
proof -
  from assms(2) have lt: "Suc i < length segments" and i: "i < length segments - 1" by simp_all
  have "take (Suc (Suc i)) segments = take (Suc i) segments @ [segments ! Suc i]"
    using lt by (simp add: take_Suc_conv_app_nth)
  then show ?thesis
    using bendPositions_nth [OF assms] bendPositions_nth [OF assms(1) i]
    by (simp add: algebra_simps)
qed

lemma bendPositions_increasing_iff:
  assumes "exact_input g segments t"
  shows "sorted_wrt (<) (bendPositions (calculateFlatPattern segments t)) \<longleftrightarrow>
     (\<forall>i. 1 \<le> i \<and> i < length segments - 1 \<longrightarrow> 2 * t < segments ! i)"
  (is "sorted_wrt (<) ?bp \<longleftrightarrow> ?rhs")
proof
  assume s: "sorted_wrt (<) ?bp"
  show ?rhs
  proof (intro allI impI)
    fix i assume i: "1 \<le> i \<and> i < length segments - 1"
    then obtain j where j: "i = Suc j" by (cases i) auto
    with i have lt: "Suc j < length ?bp" by (simp add: bendPositions_length)
    from s lt have "?bp ! j < ?bp ! Suc j"
      by (simp add: sorted_wrt_iff_nth_less)
    moreover have "?bp ! Suc j - ?bp ! j = segments ! Suc j - 2 * t"
      using bendPositions_step [OF assms] i j by simp
    ultimately show "2 * t < segments ! i" using j by simp
  qed
next
  assume r: ?rhs
  have step: "?bp ! j < ?bp ! Suc j" if "Suc j < length ?bp" for j
  proof -
    from that have lt: "Suc j < length segments - 1" by (simp add: bendPositions_length)
    then have "2 * t < segments ! Suc j" using r by simp
    moreover have "?bp ! Suc j - ?bp ! j = segments ! Suc j - 2 * t"
      using bendPositions_step [OF assms] lt by simp
    ultimately show ?thesis by simp
  qed
  show "sorted_wrt (<) ?bp"
    using step by (simp add: sorted_wrt_iff_nth_Suc_transp)
qed

text \<open>
  Three runs of \<open>calculateFlatPattern\<close> with thickness \<open>2\<close>: on \<open>10, 3, 100, 3, 10\<close>; on
  \<open>15, 35, 4.000000000000001, 35, 15\<close>, where adding the third segment to \<open>50\<close> gives \<open>54\<close>; and on
  \<open>2^53, 5, 1\<close>, where adding \<open>5\<close> and then \<open>1\<close> to \<open>2^53\<close> gives \<open>2^53 + 4\<close>.
\<close>

lemma rnd_whole:
  "rnd 0 = 0" "rnd 2 = 2" "rnd 3 = 3" "rnd 4 = 4" "rnd 6 = 6" "rnd 7 = 7" "rnd 8 = 8" "rnd 10 = 10"
  "rnd 12 = 12" "rnd 13 = 13" "rnd 14 = 14" "rnd 15 = 15" "rnd 16 = 16" "rnd 44 = 44" "rnd 50 = 50"
  "rnd 54 = 54" "rnd 75 = 75" "rnd 89 = 89" "rnd 102 = 102" "rnd 103 = 103" "rnd 104 = 104"
  "rnd 113 = 113" "rnd 116 = 116" "rnd 126 = 126"
  by (simp_all add: rnd_quarters)

lemma bendPositions_short_segment:
  "bendPositions (calculateFlatPattern [10, 3, 100, 3, 10] 2) = [8, 7, 103, 102]"
  by (simp add: calculateFlatPattern_def cumOuter_def Let_def upt_rec fadd_def fsub_def fmul_def
      fdiv_def rnd_whole)

lemma rnd_above_four: "rnd 4.000000000000001 = 4503599627370497 / 1125899906842624"
proof -
  have "rnd 4.000000000000001 = of_int 4503599627370497 * 2 powr (of_int 2 - 52)"
    by (rule rnd_evalI) (simp_all add: powr_neg_numeral)
  then show ?thesis by (simp add: powr_neg_numeral)
qed

lemma rnd_fifty_four: "rnd (60798594969501697 / 1125899906842624) = 54"
proof -
  have "rnd (60798594969501697 / 1125899906842624) =
      of_int 7599824371187712 * 2 powr (of_int 5 - 52)"
    by (rule rnd_evalI) (simp_all add: powr_neg_numeral)
  then show ?thesis by (simp add: powr_neg_numeral)
qed

lemma bendPositions_rounded_segment:
  "bendPositions (calculateFlatPattern [15, 35, rnd 4.000000000000001, 35, 15] 2) = [13, 44, 44, 75]"
  unfolding rnd_above_four
  by (simp add: calculateFlatPattern_def cumOuter_def Let_def upt_rec fadd_def fsub_def fmul_def
      fdiv_def rnd_whole rnd_fifty_four)

lemma rnd_large:
  "rnd 9007199254740992 = 9007199254740992"
  "rnd 9007199254740997 = 9007199254740996"
  "rnd 9007199254740988 = 9007199254740988"
proof -
  show "rnd 9007199254740992 = 9007199254740992" by (rule rnd_grid [of _ 0]) simp_all
  show "rnd 9007199254740988 = 9007199254740988" by (rule rnd_grid [of _ 0]) simp_all
  have "rnd 9007199254740997 =
      of_int (round_even (9007199254740997 / 2 powr (of_int 53 - 52))) * 2 powr (of_int 53 - 52)"
    by (rule rnd_eval) simp_all
  moreover have "round_even (9007199254740997 / 2) = 4503599627370498"
    by (simp add: round_even_def Let_def)
  ultimately show "rnd 9007199254740997 = 9007199254740996" by simp
qed

lemma flatLength_large:
  "flatLength (calculateFlatPattern [9007199254740992, 5, 1] 2) = 9007199254740988"
  by (simp add: calculateFlatPattern_def Let_def fadd_def fsub_def fmul_def rnd_whole rnd_large)

section \<open>Claims\<close>

subsection \<open>C4: rendering twice\<close>

text \<open>
  C4, as the specification states it: calling \<open>toString\<close> twice on the same writer gives the
  same text twice. It does not: \<open>toString\<close> pushes the closing lines onto \<open>content\<close> before it
  joins, so the second text is longer; this is so already for a writer that was just
  created.
\<close>

theorem toString_twice_counterexample:
  "fst (toString (snd (toString new_writer))) \<noteq> fst (toString new_writer)"
  by (simp add: toString_again)

text \<open>
  C4, amended: for every writer, a first \<open>toString\<close> leaves the four closing lines
  \<open>0, ENDSEC, 0, EOF\<close> appended to \<open>content\<close>, and a second \<open>toString\<close> returns the text of the
  first followed by a line feed and these four lines once more; the two texts are never
  equal.
\<close>

theorem toString_twice:
  "fst (toString (snd (toString w))) =
     fst (toString w) @ ''\<newline>0\<newline>ENDSEC\<newline>0\<newline>EOF'' \<and>
   fst (toString (snd (toString w))) \<noteq> fst (toString w) \<and>
   content (snd (toString w)) = content w @ [''0'', ''ENDSEC'', ''0'', ''EOF'']"
  by (simp add: toString_again) (simp add: toString_def Let_def)

subsection \<open>C10: \<open>parseDxf\<close> on any input\<close>

text \<open>
  C10 says that \<open>parseDxf\<close> returns a result for every input, also for one with an odd number
  of lines. Every loop of the parser does end (the functions above are total), but the
  parser can throw: in a \<open>TEXT\<close> record whose last line is the group code \<open>1\<close>, the value of
  that pair is \<open>undefined\<close>, it is stored as the text, and \<open>text.text!.length\<close> throws a
  \<open>TypeError\<close>. \<open>next()\<close> and \<open>peek()\<close> test \<open>i >= lines.length\<close> and then read \<open>lines[i + 1]\<close>.
\<close>

theorem parseDxf_truncated_text:
  "parseDxf ''0\<newline>SECTION\<newline>2\<newline>ENTITIES\<newline>0\<newline>TEXT\<newline>1'' = Inl TypeError"
  by (simp add: parseDxf_def newline_def trim_def is_space_def parseInt_codes init_state_def
      parse_entity_def Let_def)

subsection \<open>C9: what \<open>generateFabricationFiles\<close> changes in its input\<close>


subsection \<open>C7: the fallback bounds\<close>

text \<open>
  C7: when \<open>parseDxf\<close> returns and no entity of its result contributes a coordinate (every
  entity is a \<open>POLYLINE\<close> without a vertex; all other entities pass coordinates to
  \<open>updateBounds\<close>), the bounds returned are exactly \<open>(0, 0, 100, 100)\<close>. In particular the text
  rendered by a writer to which nothing was added parses to no entity and these bounds.
\<close>

theorem parseDxf_no_coordinates:
  "(parseDxf s = Inr (es, b) \<and> (\<forall>e \<in> set es. no_coordinate e) \<longrightarrow>
      b = \<lparr>minX = Fin 0, minY = Fin 0, maxX = Fin 100, maxY = Fin 100\<rparr>) \<and>
   parseDxf (fst (toString new_writer)) =
     Inr ([], \<lparr>minX = Fin 0, minY = Fin 0, maxX = Fin 100, maxY = Fin 100\<rparr>)"
  using parseDxf_fallback [of s es b] parseDxf_empty_document by blast

theorem parseDxf_no_coordinates_witness:
  "parseDxf ''0\<newline>SECTION\<newline>2\<newline>ENTITIES\<newline>0\<newline>POLYLINE\<newline>8\<newline>CUT\<newline>0\<newline>SEQEND\<newline>0\<newline>ENDSEC\<newline>0\<newline>EOF'' =
     Inr ([POLYLINE (Some ''CUT'') (Some 7) [] False],
          \<lparr>minX = Fin 0, minY = Fin 0, maxX = Fin 100, maxY = Fin 100\<rparr>) \<and>
   no_coordinate (POLYLINE (Some ''CUT'') (Some 7) [] False)"
proof -
  let ?s = "''0\<newline>SECTION\<newline>2\<newline>ENTITIES\<newline>0\<newline>POLYLINE\<newline>8\<newline>CUT\<newline>0\<newline>SEQEND\<newline>0\<newline>ENDSEC\<newline>0\<newline>EOF''"
  have "\<exists>b. parseDxf ?s = Inr ([POLYLINE (Some ''CUT'') (Some 7) [] False], b)"
    by (simp add: parseDxf_def newline_def trim_def is_space_def parseInt_codes init_state_def
        parse_entity_def Let_def)
  then obtain b where p: "parseDxf ?s = Inr ([POLYLINE (Some ''CUT'') (Some 7) [] False], b)" ..
  have n: "\<forall>e \<in> set [POLYLINE (Some ''CUT'') (Some 7) [] False]. no_coordinate e" by simp
  from parseDxf_no_coordinates [of ?s "[POLYLINE (Some ''CUT'') (Some 7) [] False]" b] p n
  have "b = \<lparr>minX = Fin 0, minY = Fin 0, maxX = Fin 100, maxY = Fin 100\<rparr>" by blast
  with p show ?thesis by simp
qed

subsection \<open>C3: writing entities and parsing them back\<close>

text \<open>
  C3, as the specification states it: for every sequence of \<open>addLine\<close>, \<open>addPolyline\<close>,
  \<open>addCircle\<close> and \<open>addText\<close> calls, parsing the rendered text gives as many entities as
  calls, of the same types in the same order, with the coordinates within \<open>0.001\<close>. The writer
  pushes layer names and texts as they are, so a text with line feeds in it makes further
  lines: one \<open>addText\<close> call with the text \<open>A\<close>, \<open>0\<close>, \<open>CIRCLE\<close> on three lines parses to two
  entities, a \<open>TEXT\<close> and a \<open>CIRCLE\<close>.
\<close>

theorem render_parse_counterexample:
  "parseDxf (render_calls [AddText ''A\<newline>0\<newline>CIRCLE'' 0 0 10 ''TEXT'' 0]) =
     Inr ([TEXT (Some ''TEXT'') (Some 7) (Fin 0) (Fin 0) (Fin 10) (Some ''A''),
           CIRCLE (Some ''0'') (Some 7) (Fin 0, Fin 0) (Fin 0)],
          \<lparr>minX = Fin 0, minY = Fin 0, maxX = Fin 6, maxY = Fin 10\<rparr>) \<and>
   length [TEXT (Some ''TEXT'') (Some 7) (Fin 0) (Fin 0) (Fin 10) (Some ''A''),
           CIRCLE (Some ''0'') (Some 7) (Fin 0, Fin 0) (Fin 0)] \<noteq>
   length [AddText ''A\<newline>0\<newline>CIRCLE'' 0 0 10 ''TEXT'' 0]"
  by (simp add: render_text_with_newlines)

text \<open>
  C3, amended: for every sequence of \<open>addLine\<close>, \<open>addPolyline\<close>, \<open>addCircle\<close> and \<open>addText\<close> calls
  on a new writer in which no layer name and no text contains a line feed, \<open>parseDxf\<close> of
  the rendered text returns an entity list with one entity per call, in order, each of
  the type of its call and with every coordinate (end points, vertices, centre and radius,
  text position) a finite number within \<open>0.001\<close> of the one written.
\<close>

theorem render_parse_roundtrip:
  "(\<forall>c \<in> set cs. \<forall>s \<in> set (call_strings c). newline \<notin> set s) \<Longrightarrow>
   \<exists>es b. parseDxf (render_calls cs) = Inr (es, b) \<and>
          length es = length cs \<and> list_all2 matches cs es"
proof -
  assume "\<forall>c \<in> set cs. \<forall>s \<in> set (call_strings c). newline \<notin> set s"
  then obtain es b where p: "parseDxf (render_calls cs) = Inr (es, b)"
    and m: "list_all2 matches cs es"
    using parseDxf_render_calls [of cs] by blast
  from m have "length es = length cs" by (simp add: list_all2_lengthD)
  with p m show ?thesis by blast
qed

theorem render_parse_roundtrip_witness:
  "newline \<notin> set ''0'' \<and>
   (\<exists>es b. parseDxf (render_calls [AddLine 0 0 100.5 0 ''0'' 7]) = Inr (es, b) \<and>
           length es = 1 \<and> list_all2 matches [AddLine 0 0 100.5 0 ''0'' 7] es)"
proof -
  have h: "\<forall>c \<in> set [AddLine 0 0 100.5 0 ''0'' 7]. \<forall>s \<in> set (call_strings c). newline \<notin> set s"
    by (simp add: newline_def)
  from render_parse_roundtrip [OF h] show ?thesis by (simp add: newline_def)
qed

subsection \<open>C6: a dimension between coincident points\<close>

text \<open>
  C6, as the specification states it: when the two end points of \<open>addDimension\<close> are at a
  Euclidean distance of less than \<open>0.1\<close>, the call appends nothing. The method compares the
  distance it computes, in binary64 arithmetic, and that can be \<open>0.1\<close> for two points that are
  closer than \<open>0.1\<close> by less than the rounding error: from \<open>(0, 0)\<close> to
  \<open>(0.08073127776809785, 0.05901237827719053)\<close> the squares add up to less than \<open>0.01\<close>, the
  computed distance is the number \<open>0.1\<close>, and the call appends the \<open>106\<close> lines of a dimension.
\<close>

theorem addDimension_coincident_counterexample:
  "sqrt ((rnd 0.08073127776809785 - 0)\<^sup>2 + (rnd 0.05901237827719053 - 0)\<^sup>2) < 0.1 \<and>
   dimension_dist 0 0 (rnd 0.08073127776809785) (rnd 0.05901237827719053) = rnd 0.1 \<and>
   length (content (addDimension new_writer 0 0 (rnd 0.08073127776809785)
      (rnd 0.05901237827719053) None 20)) = length (content new_writer) + 106"
proof -
  have d: "dimension_dist 0 0 (rnd 0.08073127776809785) (rnd 0.05901237827719053) = rnd 0.1"
    unfolding rnd_edge_literals dimension_dist_edge using rnd_tenth by simp
  have "sqrt ((rnd 0.08073127776809785 - 0)\<^sup>2 + (rnd 0.05901237827719053 - 0)\<^sup>2) < 1 / 10"
    unfolding rnd_edge_literals by (rule real_less_lsqrt) (simp_all add: power2_eq_square)
  moreover have "\<not> dimension_dist 0 0 (rnd 0.08073127776809785) (rnd 0.05901237827719053) < rnd 0.1"
    unfolding d by simp
  ultimately show ?thesis using d by (simp add: addDimension_length)
qed

text \<open>
  C6, amended: when the distance that \<open>addDimension\<close> computes between its two end points (the
  rounded square root of the rounded sum of the rounded squares of the rounded coordinate
  differences) is less than \<open>0.1\<close>, the call returns at once: the writer, and so its \<open>content\<close>,
  is unchanged. This is so whenever the Euclidean distance of the end points is at most
  \<open>0.09999999999999\<close>.
\<close>

theorem addDimension_coincident:
  "(sqrt ((x2 - x1)\<^sup>2 + (y2 - y1)\<^sup>2) \<le> 0.09999999999999 \<longrightarrow>
      dimension_dist x1 y1 x2 y2 < rnd 0.1) \<and>
   (dimension_dist x1 y1 x2 y2 < rnd 0.1 \<longrightarrow>
      addDimension w x1 y1 x2 y2 val offset = w \<and>
      content (addDimension w x1 y1 x2 y2 val offset) = content w)"
  using dimension_dist_small [of x2 x1 y2 y1] addDimension_skip [of x1 y1 x2 y2 w val offset]
  by simp

theorem addDimension_coincident_witness:
  "sqrt ((10.0625 - 10)\<^sup>2 + (20 - 20)\<^sup>2) \<le> (0.09999999999999 :: real) \<and>
   dimension_dist 10 20 10.0625 20 < rnd 0.1 \<and>
   addDimension new_writer 10 20 10.0625 20 None 20 = new_writer \<and>
   content (addDimension new_writer 10 20 10.0625 20 (Some 3) (- 40)) = content new_writer"
proof -
  have h: "sqrt ((10.0625 - 10)\<^sup>2 + (20 - 20)\<^sup>2) \<le> (0.09999999999999 :: real)"
    by (rule real_le_lsqrt) (simp_all add: power2_eq_square)
  from addDimension_coincident [of "10.0625" 10 20 20 new_writer None 20]
       addDimension_coincident [of "10.0625" 10 20 20 new_writer "Some 3" "- 40"] h
  show ?thesis by blast
qed

subsection \<open>C5: the rotation of a dimension text\<close>

text \<open>
  C5, as the specification states it: for end points at least \<open>0.1\<close> apart, the rotation
  written with the dimension text is the angle of the line in degrees brought into the
  interval \<open>(-90, 90]\<close>. It is not for a line that points up and to the left: from \<open>(0, 0)\<close> to
  \<open>(-1, 1)\<close> the angle computed is \<open>135\<close> degrees and the rotation passed to \<open>addText\<close>, and
  written on the \<open>TEXT\<close> entity as the value of group code \<open>50\<close>, is \<open>315\<close>.
\<close>

theorem addDimension_rotation_counterexample:
  "rnd 0.1 \<le> dimension_dist 0 0 (- 1) 1 \<and>
   fdiv (fmul (atan2 (fsub 1 0) (fsub (- 1) 0)) 180) Math_PI = 135 \<and>
   (\<exists>w' s x y. addDimension new_writer 0 0 (- 1) 1 (Some 5) 20 = addText w' s x y 3.5 ''TEXT'' 315) \<and>
   drop (length (content (addDimension new_writer 0 0 (- 1) 1 (Some 5) 20)) - 4)
        (content (addDimension new_writer 0 0 (- 1) 1 (Some 5) 20)) =
     [''50'', ''315'', ''1'', ''5.0''] \<and>
   \<not> (- 90 < (315 :: real) \<and> (315 :: real) \<le> 90)"
proof -
  have a: "fdiv (fmul (atan2 (fsub 1 0) (fsub (- 1) 0)) 180) Math_PI = 135"
    by (simp add: fsub_def rnd_small_ints atan2_up_left degrees_up_left)
  from addDimension_text [OF dimension_dist_up_left, of new_writer "Some 5" 20]
       addDimension_text_lines [OF dimension_dist_up_left, of new_writer "Some 5" 20]
       dimension_dist_up_left a
  show ?thesis by (simp add: dimension_textRot_up_left num_toString_315 toFixed_1_5)
qed

text \<open>
  C5, amended: for end points whose computed distance is at least \<open>0.1\<close>, let \<open>a\<close> be the angle
  that \<open>addDimension\<close> computes in degrees, \<open>Math.atan2(y2 - y1, x2 - x1) * 180 / Math.PI\<close>; it
  lies between \<open>-180\<close> and \<open>180\<close>. The rotation that the call passes to \<open>addText\<close> for the
  \<open>TEXT\<close> entity of the dimension is \<open>a\<close> when \<open>-90 \<le> a \<le> 90\<close> and \<open>a + 180\<close> otherwise: it lies
  between \<open>0\<close> and \<open>90\<close> when \<open>a < -90\<close>, and between \<open>270\<close> and \<open>360\<close> when \<open>a > 90\<close>.
\<close>

theorem addDimension_rotation:
  "rnd 0.1 \<le> dimension_dist x1 y1 x2 y2 \<Longrightarrow>
   (let a = fdiv (fmul (atan2 (fsub y2 y1) (fsub x2 x1)) 180) Math_PI;
        r = (if - 90 \<le> a \<and> a \<le> 90 then a else fadd a 180)
    in - 180 \<le> a \<and> a \<le> 180 \<and>
       (\<exists>w' s x y. addDimension w x1 y1 x2 y2 val offset = addText w' s x y 3.5 ''TEXT'' r) \<and>
       (a < - 90 \<longrightarrow> 0 \<le> r \<and> r \<le> 90) \<and>
       (90 < a \<longrightarrow> 270 \<le> r \<and> r \<le> 360))"
proof -
  assume "rnd 0.1 \<le> dimension_dist x1 y1 x2 y2"
  then have far: "\<not> dimension_dist x1 y1 x2 y2 < rnd 0.1" by simp
  define a where "a = fdiv (fmul (atan2 (fsub y2 y1) (fsub x2 x1)) 180) Math_PI"
  have rng: "- 180 \<le> a" "a \<le> 180"
    unfolding a_def using angle_degrees_range [of "fsub y2 y1" "fsub x2 x1"] by simp_all
  have c: "rnd 0 = 0" "rnd 90 = 90" "rnd 270 = 270" "rnd 360 = 360"
    by (simp_all add: rnd_quarters)
  have lo: "0 \<le> fadd a 180 \<and> fadd a 180 \<le> 90" if "a < - 90"
    using rnd_mono [of 0 "a + 180"] rnd_mono [of "a + 180" 90] that rng
    by (simp add: fadd_def c)
  have hi: "270 \<le> fadd a 180 \<and> fadd a 180 \<le> 360" if "90 < a"
    using rnd_mono [of 270 "a + 180"] rnd_mono [of "a + 180" 360] that rng
    by (simp add: fadd_def c)
  have t: "\<exists>w' s x y. addDimension w x1 y1 x2 y2 val offset =
      addText w' s x y 3.5 ''TEXT'' (if - 90 \<le> a \<and> a \<le> 90 then a else fadd a 180)"
    using addDimension_text [OF far, of w val offset]
    unfolding dimension_textRot_eq Let_def a_def .
  show ?thesis
    unfolding Let_def a_def [symmetric] using rng t lo hi by simp
qed

theorem addDimension_rotation_witness:
  "rnd 0.1 \<le> dimension_dist 0 0 0 10 \<and>
   fdiv (fmul (atan2 (fsub 10 0) (fsub 0 0)) 180) Math_PI = 90 \<and>
   (\<exists>w' s x y. addDimension new_writer 0 0 0 10 (Some 10) 20 = addText w' s x y 3.5 ''TEXT'' 90)"
proof -
  have far: "rnd 0.1 \<le> dimension_dist 0 0 0 10"
    by (simp add: dimension_dist_up rnd_tenth)
  have a: "fdiv (fmul (atan2 (fsub 10 0) (fsub 0 0)) 180) Math_PI = 90"
    by (simp add: fsub_def rnd_small_ints atan2_def degrees_of_half_pi)
  from addDimension_rotation [OF far, of new_writer "Some 10" 20] a far
  show ?thesis by (simp add: Let_def)
qed

subsection \<open>C1: the flat pattern of a bent profile\<close>

text \<open>
  C1, as the specification states it: for a segment list of length \<open>n \<ge> 2\<close> and a thickness
  \<open>t\<close>, \<open>calculateFlatPattern\<close> returns \<open>flatLength = sum(segments) - (n - 1) * 2t\<close> and \<open>n - 1\<close>
  bend positions, the \<open>i\<close>-th being \<open>segments[0] + ... + segments[i] - (i * 2t + t)\<close>, and the
  bend positions are strictly increasing. The last part fails: two neighbouring bend
  positions differ by the segment between them less \<open>2t\<close>, so a segment of at most \<open>2t\<close>
  inside the list breaks the order. For the profile \<open>10, 3, 100, 3, 10\<close> of thickness \<open>2\<close> the
  bend positions are \<open>8, 7, 103, 102\<close>. The equations hold up to the rounding of every sum:
  for \<open>15, 35, 4.000000000000001, 35, 15\<close> the bend positions are \<open>13, 44, 44, 75\<close>, two of them
  equal although the third segment is longer than \<open>2t = 4\<close>, and for \<open>2^53, 5, 1\<close> the flat length
  returned is \<open>2^53 - 4\<close>, where the sum less the deductions is \<open>2^53 - 2\<close>.
\<close>

theorem calculateFlatPattern_counterexample:
  "bendPositions (calculateFlatPattern [10, 3, 100, 3, 10] 2) = [8, 7, 103, 102] \<and>
   \<not> sorted_wrt (<) (bendPositions (calculateFlatPattern [10, 3, 100, 3, 10] 2)) \<and>
   4 < rnd 4.000000000000001 \<and>
   bendPositions (calculateFlatPattern [15, 35, rnd 4.000000000000001, 35, 15] 2) = [13, 44, 44, 75] \<and>
   flatLength (calculateFlatPattern [9007199254740992, 5, 1] 2) = 9007199254740988 \<and>
   sum_list [9007199254740992, 5, 1] - (real (length [9007199254740992, 5, 1 :: real]) - 1) * (2 * 2) =
     (9007199254740990 :: real)"
proof -
  have a: "4 < rnd 4.000000000000001" unfolding rnd_above_four by simp
  have b: "\<not> sorted_wrt (<) (bendPositions (calculateFlatPattern [10, 3, 100, 3, 10] 2))"
    unfolding bendPositions_short_segment by simp
  have c: "sum_list [9007199254740992, 5, 1] -
      (real (length [9007199254740992, 5, 1 :: real]) - 1) * (2 * 2) = (9007199254740990 :: real)"
    by simp
  show ?thesis
    by (intro conjI)
       (rule bendPositions_short_segment b a bendPositions_rounded_segment flatLength_large c)+
qed

text \<open>
  C1, amended: for a segment list of length \<open>n \<ge> 2\<close> and a thickness \<open>t\<close> there are \<open>n - 1\<close> bend
  positions. When the segment lengths and the thickness are multiples of some \<open>2^-g\<close> and the
  sum of the lengths with the deductions is small enough for the arithmetic to be exact
  (\<open>exact_input\<close>; for \<open>g = 0\<close>: whole numbers with a total up to \<open>2^53\<close>), the flat length is
  \<open>sum(segments) - (n - 1) * 2t\<close>, the \<open>i\<close>-th bend position is the sum of the segments \<open>0..i\<close>
  less \<open>i * 2t + t\<close>, and the bend positions are strictly increasing exactly when every segment
  but the first and the last is longer than \<open>2t\<close>.
\<close>

theorem calculateFlatPattern_spec:
  "2 \<le> length segments \<Longrightarrow>
   length (bendPositions (calculateFlatPattern segments t)) = length segments - 1 \<and>
   (exact_input g segments t \<longrightarrow>
      flatLength (calculateFlatPattern segments t) =
        sum_list segments - (real (length segments) - 1) * (2 * t) \<and>
      (\<forall>i < length segments - 1.
         bendPositions (calculateFlatPattern segments t) ! i =
           sum_list (take (Suc i) segments) - (real i * (2 * t) + t)) \<and>
      (sorted_wrt (<) (bendPositions (calculateFlatPattern segments t)) \<longleftrightarrow>
         (\<forall>i. 1 \<le> i \<and> i < length segments - 1 \<longrightarrow> 2 * t < segments ! i)))"
proof -
  assume n: "2 \<le> length segments"
  then have p: "0 < length segments" by linarith
  show ?thesis
    using flatLength_eq [OF _ p, of g t] bendPositions_length [of segments t]
      bendPositions_nth [of g segments t] bendPositions_increasing_iff [of g segments t]
    by blast
qed

theorem calculateFlatPattern_spec_witness:
  "2 \<le> length [15, 50, 100, 50, 15 :: real] \<and> exact_input 1 [15, 50, 100, 50, 15] 1.5 \<and>
   flatLength (calculateFlatPattern [15, 50, 100, 50, 15] 1.5) = 218 \<and>
   length (bendPositions (calculateFlatPattern [15, 50, 100, 50, 15] 1.5)) = 4 \<and>
   bendPositions (calculateFlatPattern [15, 50, 100, 50, 15] 1.5) ! 1 = 60.5 \<and>
   sorted_wrt (<) (bendPositions (calculateFlatPattern [15, 50, 100, 50, 15] 1.5))"
proof -
  let ?s = "[15, 50, 100, 50, 15 :: real]"
  have h: "2 \<le> length ?s" by simp
  have e: "exact_input 1 ?s 1.5" by (simp add: exact_input_def on_grid_def)
  have big: "\<forall>i. 1 \<le> i \<and> i < length ?s - 1 \<longrightarrow> 2 * 1.5 < ?s ! i"
  proof (intro allI impI)
    fix i :: nat assume "1 \<le> i \<and> i < length ?s - 1"
    then have "i = 1 \<or> i = 2 \<or> i = 3" by auto
    then show "2 * 1.5 < ?s ! i" by auto
  qed
  from calculateFlatPattern_spec [OF h, of "1.5" 1] big h e
  show ?thesis by simp
qed

end
